theory Spec2Isabelle
  imports Main
begin

text \<open>
  A model of \<open>parse_newick.py\<close>. A Python string is a list of characters, a character being
  a code point below 256 (\<open>is_space\<close> lists the ones \<open>str.strip\<close> removes). An index into a
  string is a natural number where the source only ever passes one that is not negative;
  the result of \<open>_next_node_end\<close>, which may be \<open>-1\<close>, is an integer and the slices taken at
  it follow Python's rule for negative bounds. A raised exception is the left injection of
  a sum.
\<close>

section \<open>Errors and Python string primitives\<close>

text \<open>
  Every error of the module is a Python \<open>ValueError\<close>; the constructors tell apart where it
  is raised: by \<open>parse_newick\<close> on a text without terminator, by \<open>str.index\<close> when the
  character is not found, by \<open>float\<close>, or by a callback of the caller.
\<close>

datatype error =
    FormatError
  | SubstringNotFound
  | FloatError
  | CallbackError string

text \<open>
  \<open>str.strip\<close>, \<open>str.lstrip\<close>, \<open>str.startswith\<close> and \<open>str.endswith\<close> (on one character).
\<close>

definition is_space :: "char \<Rightarrow> bool" where
  "is_space c = (c \<in> set [CHR 0x09, CHR 0x0A, CHR 0x0B, CHR 0x0C, CHR 0x0D,
                           CHR 0x1C, CHR 0x1D, CHR 0x1E, CHR 0x1F, CHR 0x20,
                           CHR 0x85, CHR 0xA0])"

definition lstrip :: "string \<Rightarrow> string" where
  "lstrip s = dropWhile is_space s"

definition rstrip :: "string \<Rightarrow> string" where
  "rstrip s = rev (dropWhile is_space (rev s))"

definition strip :: "string \<Rightarrow> string" where
  "strip s = rstrip (lstrip s)"

definition startswith :: "string \<Rightarrow> char \<Rightarrow> bool" where
  "startswith s c = (case s of [] \<Rightarrow> False | x # _ \<Rightarrow> x = c)"

definition endswith :: "string \<Rightarrow> char \<Rightarrow> bool" where
  "endswith s c = (case rev s of [] \<Rightarrow> False | x # _ \<Rightarrow> x = c)"

text \<open>
  \<open>s.find(c, start)\<close>, with \<open>None\<close> for \<open>-1\<close>, and \<open>s.index(c, start)\<close>, which raises instead.
\<close>

definition str_find :: "string \<Rightarrow> char \<Rightarrow> nat \<Rightarrow> nat option" where
  "str_find s c start =
     (if c \<in> set (drop start s)
      then Some (start + length (takeWhile (\<lambda>x. x \<noteq> c) (drop start s)))
      else None)"

definition str_index :: "string \<Rightarrow> char \<Rightarrow> nat \<Rightarrow> error + nat" where
  "str_index s c start =
     (case str_find s c start of None \<Rightarrow> Inl SubstringNotFound | Some i \<Rightarrow> Inr i)"

text \<open>
  The slices \<open>s[a:b]\<close> (both bounds not negative), \<open>s[:k]\<close> and \<open>s[k:]\<close> (any integer \<open>k\<close>), and
  \<open>s.split(c, maxsplit=1)\<close> for a string \<open>s\<close> that contains \<open>c\<close>.
\<close>

definition slice :: "string \<Rightarrow> nat \<Rightarrow> nat \<Rightarrow> string" where
  "slice s a b = take (b - a) (drop a s)"

definition py_upto :: "string \<Rightarrow> int \<Rightarrow> string" where
  "py_upto s k = (if 0 \<le> k then take (nat k) s else take (length s - nat (- k)) s)"

definition py_from :: "string \<Rightarrow> int \<Rightarrow> string" where
  "py_from s k = (if 0 \<le> k then drop (nat k) s else drop (length s - nat (- k)) s)"

definition split_once :: "char \<Rightarrow> string \<Rightarrow> string \<times> string" where
  "split_once c s = (takeWhile (\<lambda>x. x \<noteq> c) s, drop 1 (dropWhile (\<lambda>x. x \<noteq> c) s))"

section \<open>The balanced-delimiter scanner\<close>

text \<open>
  \<open>_find_closing(string, start, pair)\<close>. The recursion is nested: the second call starts
  where the first one ended, so its termination needs the bounds of a result, proved on
  the domain of the function first.
\<close>

function find_closing :: "string \<Rightarrow> nat \<Rightarrow> char \<times> char \<Rightarrow> error + nat" where
  "find_closing s start pair =
     (case str_index s (snd pair) start of
        Inl e \<Rightarrow> Inl e
      | Inr next_closing \<Rightarrow>
          (if str_find s (fst pair) start = None then Inr next_closing
           else (case str_index s (fst pair) start of
                   Inl e \<Rightarrow> Inl e
                 | Inr next_opening \<Rightarrow>
                     (if next_closing < next_opening then Inr next_closing
                      else (case find_closing s (next_opening + 1) pair of
                              Inl e \<Rightarrow> Inl e
                            | Inr skip \<Rightarrow> find_closing s (skip + 1) pair)))))"
  by pat_completeness auto

lemma takeWhile_neq_nth:
  "c \<in> set xs \<Longrightarrow>
     length (takeWhile (\<lambda>x. x \<noteq> c) xs) < length xs \<and>
     xs ! length (takeWhile (\<lambda>x. x \<noteq> c) xs) = c"
  by (induction xs) auto

lemma str_find_bounds:
  "str_find s c start = Some i \<Longrightarrow> start \<le> i \<and> i < length s \<and> s ! i = c"
proof -
  assume a: "str_find s c start = Some i"
  let ?d = "drop start s"
  let ?t = "takeWhile (\<lambda>x. x \<noteq> c) ?d"
  from a have mem: "c \<in> set ?d" and i: "i = start + length ?t"
    by (auto simp: str_find_def split: if_splits)
  from takeWhile_neq_nth[OF mem] have lt: "length ?t < length ?d" and nth: "?d ! length ?t = c"
    by auto
  from lt have "start + length ?t < length s" by simp
  moreover from nth lt have "s ! (start + length ?t) = c" by simp
  ultimately show ?thesis using i by simp
qed

lemma str_index_bounds:
  "str_index s c start = Inr i \<Longrightarrow> start \<le> i \<and> i < length s \<and> s ! i = c"
  by (auto simp: str_index_def split: option.splits dest: str_find_bounds)

lemma find_closing_dom_bounds:
  "find_closing_dom (s, start, pair) \<Longrightarrow> find_closing s start pair = Inr k
     \<Longrightarrow> start \<le> k \<and> k < length s"
proof (induction s start pair arbitrary: k rule: find_closing.pinduct)
  case (1 s start pair)
  note eq = find_closing.psimps[OF "1.hyps"]
  show ?case
  proof (cases "str_index s (snd pair) start")
    case (Inl e)
    with eq "1.prems" show ?thesis by simp
  next
    case (Inr nc)
    note nc = this
    show ?thesis
    proof (cases "str_find s (fst pair) start = None")
      case True
      with eq nc "1.prems" have "k = nc" by simp
      with str_index_bounds[OF nc] show ?thesis by simp
    next
      case False
      then obtain no where no: "str_index s (fst pair) start = Inr no"
        by (auto simp: str_index_def)
      show ?thesis
      proof (cases "nc < no")
        case True
        with eq nc no False "1.prems" have "k = nc" by simp
        with str_index_bounds[OF nc] show ?thesis by simp
      next
        case ge: False
        show ?thesis
        proof (cases "find_closing s (no + 1) pair")
          case (Inl e)
          with eq nc no False ge "1.prems" show ?thesis by simp
        next
          case (Inr skip)
          from "1.IH"(1)[OF nc False no ge Inr] have sk: "no + 1 \<le> skip" by simp
          from eq nc no False ge Inr "1.prems"
          have "find_closing s (skip + 1) pair = Inr k" by simp
          from "1.IH"(2)[OF nc False no ge Inr this] sk str_index_bounds[OF no]
          show ?thesis by simp
        qed
      qed
    qed
  qed
qed

lemma find_closing_total: "All find_closing_dom"
proof (relation "measure (\<lambda>(s, start, pair). length s - start)", goal_cases)
  case 1
  show ?case by simp
next
  case (2 s start pair nc no)
  from str_index_bounds[OF 2(3)] have "start \<le> no" "no < length s" by simp_all
  then show ?case by simp
next
  case (3 s start pair nc no skip)
  from str_index_bounds[OF 3(3)] find_closing_dom_bounds[OF 3(6) 3(5)]
  have "start \<le> no" "no + 1 \<le> skip" "skip < length s" by simp_all
  then show ?case by simp
qed

termination find_closing
  by (rule find_closing_total)

declare find_closing.simps [simp del]

lemma find_closing_bounds:
  "find_closing s start pair = Inr k \<Longrightarrow> start \<le> k \<and> k < length s"
  by (rule find_closing_dom_bounds[OF find_closing_total[rule_format]])

section \<open>The node field extractor\<close>

definition paren :: "char \<times> char" where
  "paren = (CHR ''('', CHR '')'')"

definition bracket :: "char \<times> char" where
  "bracket = (CHR ''['', CHR '']'')"

definition find_closing_parenthesis :: "string \<Rightarrow> error + nat" where
  "find_closing_parenthesis s = find_closing s 1 paren"

definition parts_of_subtree :: "string \<Rightarrow> error + (string \<times> string \<times> string \<times> string)" where
  "parts_of_subtree newick =
     (case (if startswith newick CHR ''(''
            then (case find_closing_parenthesis newick of
                    Inl e \<Rightarrow> Inl e
                  | Inr children_end \<Rightarrow>
                      Inr (slice newick 1 children_end, drop (children_end + 1) newick))
            else Inr ([], newick)) of
        Inl e \<Rightarrow> Inl e
      | Inr (children, rest) \<Rightarrow>
          (let (rest1, comment) =
                 (if CHR ''['' \<in> set rest
                  then (case split_once CHR ''['' rest of (r, c) \<Rightarrow> (r, butlast c))
                  else (rest, []));
               (label, len) =
                 (if CHR '':'' \<in> set rest1 then split_once CHR '':'' rest1 else (rest1, []))
           in Inr (children, strip label, len, comment)))"

section \<open>The sibling splitter\<close>

definition grouping :: "char \<Rightarrow> (char \<times> char) option" where
  "grouping ch = (if ch = CHR ''('' then Some paren
                  else if ch = CHR ''['' then Some bracket else None)"

text \<open>
  The \<open>while\<close> loop of \<open>_next_node_end\<close>, started at \<open>current_end\<close>; then the function itself.
\<close>

function scan_node_end :: "string \<Rightarrow> nat \<Rightarrow> error + int" where
  "scan_node_end nodes_str current_end =
     (if current_end < length nodes_str
      then (case grouping (nodes_str ! current_end) of
              Some pair \<Rightarrow>
                (case find_closing nodes_str (current_end + 1) pair of
                   Inl e \<Rightarrow> Inl e
                 | Inr closing \<Rightarrow> scan_node_end nodes_str closing)
            | None \<Rightarrow>
                (if nodes_str ! current_end = CHR '',''
                 then Inr (int current_end - 1)
                 else scan_node_end nodes_str (current_end + 1)))
      else Inr (int (length nodes_str) - 1))"
  by pat_completeness auto

lemma scan_node_end_total: "All scan_node_end_dom"
  apply (relation "measure (\<lambda>(s, current_end). length s - current_end)")
    apply simp
   apply (auto dest!: find_closing_bounds)
  done

termination scan_node_end
  by (rule scan_node_end_total)

declare scan_node_end.simps [simp del]

lemma scan_node_end_range:
  "scan_node_end s p = Inr n \<Longrightarrow> p \<le> length s \<Longrightarrow>
     int p - 1 \<le> n \<and> n < int (length s) \<and>
     (n = int p - 1 \<longrightarrow> p = length s \<or> s ! p = CHR '','')"
proof (induction s p arbitrary: n rule: scan_node_end.induct)
  case (1 s p)
  note eq = scan_node_end.simps[of s p]
  show ?case
  proof (cases "p < length s")
    case False
    with eq "1.prems" show ?thesis by simp
  next
    case lt: True
    show ?thesis
    proof (cases "grouping (s ! p)")
      case (Some pair)
      show ?thesis
      proof (cases "find_closing s (p + 1) pair")
        case (Inl e)
        with eq lt Some "1.prems" show ?thesis by simp
      next
        case (Inr closing)
        from find_closing_bounds[OF Inr] have b: "p + 1 \<le> closing" "closing < length s"
          by simp_all
        from eq lt Some Inr "1.prems" have "scan_node_end s closing = Inr n" by simp
        from "1.IH"(2)[OF lt Some Inr this] b show ?thesis by simp
      qed
    next
      case None
      show ?thesis
      proof (cases "s ! p = CHR '',''")
        case True
        with eq lt None "1.prems" show ?thesis by auto
      next
        case False
        with eq lt None "1.prems" have "scan_node_end s (p + 1) = Inr n" by simp
        from "1.IH"(1)[OF lt None False this] lt show ?thesis by simp
      qed
    qed
  qed
qed

definition next_node_end :: "string \<Rightarrow> error + int" where
  "next_node_end nodes_str0 =
     (let nodes_str = strip nodes_str0 in
      case (if startswith nodes_str CHR ''('' then find_closing_parenthesis nodes_str
            else Inr 0) of
        Inl e \<Rightarrow> Inl e
      | Inr current_end \<Rightarrow> scan_node_end nodes_str current_end)"

lemma length_lstrip: "length (lstrip s) \<le> length s"
  by (simp add: lstrip_def length_dropWhile_le)

lemma length_rstrip: "length (rstrip s) \<le> length s"
  using length_dropWhile_le[of is_space "rev s"] by (simp add: rstrip_def)

lemma length_strip: "length (strip s) \<le> length s"
  using length_rstrip[of "lstrip s"] length_lstrip[of s] by (simp add: strip_def)

lemma lstrip_hd: "lstrip s \<noteq> [] \<Longrightarrow> \<not> is_space (hd (lstrip s))"
  unfolding lstrip_def by (rule hd_dropWhile)

lemma rstrip_last: "rstrip s \<noteq> [] \<Longrightarrow> \<not> is_space (last (rstrip s))"
  by (metis hd_dropWhile hd_rev rev.simps(1) rev_rev_ident rstrip_def)

lemma lstrip_id: "s = [] \<or> \<not> is_space (hd s) \<Longrightarrow> lstrip s = s"
  by (cases s) (auto simp: lstrip_def)

lemma rstrip_id: "s = [] \<or> \<not> is_space (last s) \<Longrightarrow> rstrip s = s"
  by (metis dropWhile_eq_self_iff hd_rev rev.simps(1) rev_rev_ident rstrip_def)

lemma rstrip_hd: "rstrip s \<noteq> [] \<Longrightarrow> hd (rstrip s) = hd s"
  by (metis last_appendR last_rev rev.simps(1) rev_rev_ident rstrip_def
      takeWhile_dropWhile_id)

lemma strip_ends:
  "strip s \<noteq> [] \<Longrightarrow> \<not> is_space (hd (strip s)) \<and> \<not> is_space (last (strip s))"
proof -
  assume ne: "strip s \<noteq> []"
  then have "lstrip s \<noteq> []" by (auto simp: strip_def rstrip_def)
  from lstrip_hd[OF this] rstrip_hd[of "lstrip s"] ne rstrip_last[of "lstrip s"]
  show ?thesis by (simp add: strip_def)
qed

lemma strip_id:
  "s = [] \<or> (\<not> is_space (hd s) \<and> \<not> is_space (last s)) \<Longrightarrow> strip s = s"
  by (auto simp: strip_def lstrip_id rstrip_id)

lemma strip_idem: "strip (strip s) = strip s"
  using strip_ends[of s] by (intro strip_id) auto

lemma next_node_end_range:
  assumes "next_node_end s = Inr n" and "strip s \<noteq> []"
    and "\<not> startswith (strip s) CHR '',''"
  shows "0 \<le> n \<and> n < int (length (strip s))"
proof (cases "startswith (strip s) CHR ''(''")
  case True
  with assms(1) obtain k where k: "find_closing (strip s) 1 paren = Inr k"
    and sc: "scan_node_end (strip s) k = Inr n"
    by (auto simp: next_node_end_def Let_def find_closing_parenthesis_def split: sum.splits)
  from find_closing_bounds[OF k] scan_node_end_range[OF sc] show ?thesis by simp
next
  case False
  with assms(1) have sc: "scan_node_end (strip s) 0 = Inr n"
    by (simp add: next_node_end_def Let_def)
  from assms(2,3) have "strip s ! 0 \<noteq> CHR '',''"
    by (cases "strip s") (auto simp: startswith_def)
  with scan_node_end_range[OF sc] assms(2) show ?thesis by auto
qed

text \<open>
  \<open>_split_nodes(nodes_str)\<close>. Its last recursive call is on a shorter string because
  \<open>_next_node_end\<close> returns an index of the string there.
\<close>

function split_nodes :: "string \<Rightarrow> error + string list" where
  "split_nodes nodes_str0 =
     (let nodes_str = strip nodes_str0 in
      if nodes_str = [] then Inr []
      else if nodes_str = '','' then Inr [[], []]
      else if startswith nodes_str CHR '','' then
        (case split_nodes (drop 1 nodes_str) of
           Inl e \<Rightarrow> Inl e
         | Inr nodes \<Rightarrow> Inr ([] # nodes))
      else if endswith nodes_str CHR '','' then
        (case split_nodes (butlast nodes_str) of
           Inl e \<Rightarrow> Inl e
         | Inr nodes \<Rightarrow> Inr (nodes @ [[]]))
      else
        (case next_node_end nodes_str of
           Inl e \<Rightarrow> Inl e
         | Inr next_end \<Rightarrow>
             (let node = py_upto nodes_str (next_end + 1);
                  rest0 = lstrip (py_from nodes_str (next_end + 1));
                  rest = (if startswith rest0 CHR '','' then drop 1 rest0 else rest0)
              in case split_nodes rest of
                   Inl e \<Rightarrow> Inl e
                 | Inr nodes \<Rightarrow> Inr (node # nodes))))"
  by pat_completeness auto

lemma split_nodes_total: "All split_nodes_dom"
proof (relation "measure length", goal_cases)
  case 1
  show ?case by simp
next
  case (2 s0 x)
  then have "0 < length x" "length x \<le> length s0"
    by (simp_all add: length_strip)
  then have "length x - 1 < length s0" by arith
  then show ?case by simp
next
  case (3 s0 x)
  then have "0 < length x" "length x \<le> length s0"
    by (simp_all add: length_strip)
  then have "length x - 1 < length s0" by arith
  then show ?case by simp
next
  case (4 s0 x b node rest0 rest)
  from 4 have nn: "next_node_end (strip s0) = Inr b" by simp
  from 4 have "strip x = x" by (simp add: strip_idem)
  with next_node_end_range[of x b] 4 have b: "0 \<le> b" "b < int (length x)"
    by auto
  then have "length (py_from x (b + 1)) < length x"
    by (auto simp: py_from_def)
  moreover have "length rest \<le> length rest0"
    using 4 by simp
  moreover have "length rest0 \<le> length (py_from x (b + 1))"
    using 4 by (simp add: length_lstrip)
  ultimately show ?case using length_strip[of s0] 4 by simp
qed

termination split_nodes
  by (rule split_nodes_total)

declare split_nodes.simps [simp del]

lemma split_nodes_lengths:
  "split_nodes s = Inr xs \<Longrightarrow> x \<in> set xs \<Longrightarrow> length x \<le> length s"
proof (induction s arbitrary: xs rule: split_nodes.induct)
  case (1 s0)
  define s where "s = strip s0"
  have len: "length s \<le> length s0" by (simp add: s_def length_strip)
  note eq = split_nodes.simps[of s0, folded s_def]
  show ?case
  proof (cases "s = [] \<or> s = '',''")
    case True
    with eq "1.prems" show ?thesis by (auto simp: Let_def)
  next
    case False
    then have ne: "s \<noteq> []" "s \<noteq> '',''" by simp_all
    show ?thesis
    proof (cases "startswith s CHR '',''")
      case True
      with eq ne "1.prems" obtain ys where ys: "split_nodes (drop 1 s) = Inr ys"
        and xs: "xs = [] # ys"
        by (auto simp: Let_def split: sum.splits)
      from "1.IH"(1)[OF s_def ne True ys] xs "1.prems"(2) len show ?thesis
        by (cases "x \<in> set ys") auto
    next
      case nsw: False
      show ?thesis
      proof (cases "endswith s CHR '',''")
        case True
        with eq ne nsw "1.prems" obtain ys where ys: "split_nodes (butlast s) = Inr ys"
          and xs: "xs = ys @ [[]]"
          by (auto simp: Let_def split: sum.splits)
        from "1.IH"(2)[OF s_def ne nsw True ys] xs "1.prems"(2) len show ?thesis
          by (cases "x \<in> set ys") auto
      next
        case new: False
        from eq ne nsw new "1.prems" obtain b ys where b: "next_node_end s = Inr b"
          and ys: "split_nodes (if startswith (lstrip (py_from s (b + 1))) CHR '',''
                                then drop 1 (lstrip (py_from s (b + 1)))
                                else lstrip (py_from s (b + 1))) = Inr ys"
          and xs: "xs = py_upto s (b + 1) # ys"
          by (auto simp: Let_def split: sum.splits)
        have l1: "length (py_upto s (b + 1)) \<le> length s"
          by (simp add: py_upto_def)
        have l2: "length (lstrip (py_from s (b + 1))) \<le> length s"
          using length_lstrip[of "py_from s (b + 1)"] by (simp add: py_from_def split: if_splits)
        have "x \<in> set ys \<Longrightarrow> length x \<le> length s"
          using "1.IH"(3)[OF s_def ne nsw new b refl refl refl ys] l2
          by (fastforce split: if_splits)
        with xs "1.prems"(2) l1 len show ?thesis by auto
      qed
    qed
  qed
qed

lemma parts_children_length:
  assumes "parts_of_subtree s = Inr (cs, l, d, c)"
  shows "cs = [] \<or> length cs < length s"
proof (cases "startswith s CHR ''(''")
  case True
  then have ne: "s \<noteq> []" by (auto simp: startswith_def)
  from True assms obtain k where "cs = slice s 1 k"
    by (auto simp: parts_of_subtree_def Let_def split: sum.splits prod.splits if_splits)
  with ne show ?thesis by (cases s) (auto simp: slice_def)
next
  case False
  with assms show ?thesis
    by (auto simp: parts_of_subtree_def Let_def split: sum.splits prod.splits if_splits)
qed

section \<open>The tree builder\<close>

text \<open>
  The three injected callbacks are arbitrary Python callables: they may raise and they may
  have effects. A callback is therefore a function on an explicit state that returns either
  an error or a value, together with the new state; the builder threads the state through
  the calls in the order in which the source makes them.
\<close>

text \<open>
  The list comprehension over the children: the calls run from left to right and the
  first error ends them.
\<close>

fun map_calls ::
  "('a \<Rightarrow> 's \<Rightarrow> (error + 'b) \<times> 's) \<Rightarrow> 'a list \<Rightarrow> 's \<Rightarrow> (error + 'b list) \<times> 's" where
  "map_calls f [] st = (Inr [], st)"
| "map_calls f (x # xs) st =
     (case f x st of
        (Inl e, st1) \<Rightarrow> (Inl e, st1)
      | (Inr y, st1) \<Rightarrow>
          (case map_calls f xs st1 of
             (Inl e, st2) \<Rightarrow> (Inl e, st2)
           | (Inr ys, st2) \<Rightarrow> (Inr (y # ys), st2)))"

lemma map_calls_cong [fundef_cong]:
  "xs = ys \<Longrightarrow> st = st' \<Longrightarrow> (\<And>x s. x \<in> set ys \<Longrightarrow> f x s = g x s)
     \<Longrightarrow> map_calls f xs st = map_calls g ys st'"
proof (induction ys arbitrary: xs st st')
  case Nil
  then show ?case by simp
next
  case (Cons y ys)
  have "map_calls f ys s = map_calls g ys s" for s
    by (rule Cons.IH) (simp_all add: Cons.prems(3))
  with Cons.prems show ?case by (simp split: prod.splits sum.splits)
qed

function parse_newick_subtree ::
  "string \<Rightarrow> (string \<Rightarrow> 't list \<Rightarrow> 'd \<Rightarrow> 'f \<Rightarrow> 's \<Rightarrow> (error + 't) \<times> 's)
     \<Rightarrow> (string \<Rightarrow> 's \<Rightarrow> (error + 'd) \<times> 's) \<Rightarrow> (string \<Rightarrow> 's \<Rightarrow> (error + 'f) \<times> 's)
     \<Rightarrow> 's \<Rightarrow> (error + 't) \<times> 's" where
  "parse_newick_subtree newick aggregator distance_parser feature_parser st =
     (case parts_of_subtree (strip newick) of
        Inl e \<Rightarrow> (Inl e, st)
      | Inr (children_str, label, distance_str, comment_str) \<Rightarrow>
          (case split_nodes children_str of
             Inl e \<Rightarrow> (Inl e, st)
           | Inr child_strs \<Rightarrow>
               (case map_calls
                       (\<lambda>child_str.
                          parse_newick_subtree child_str aggregator distance_parser feature_parser)
                       child_strs st of
                  (Inl e, st1) \<Rightarrow> (Inl e, st1)
                | (Inr children, st1) \<Rightarrow>
                    (case feature_parser comment_str st1 of
                       (Inl e, st2) \<Rightarrow> (Inl e, st2)
                     | (Inr features, st2) \<Rightarrow>
                         (case distance_parser distance_str st2 of
                            (Inl e, st3) \<Rightarrow> (Inl e, st3)
                          | (Inr distance, st3) \<Rightarrow>
                              aggregator label children distance features st3)))))"
  by pat_completeness auto

lemma parse_newick_subtree_total: "All parse_newick_subtree_dom"
proof (relation "measure (\<lambda>(newick, aggregator, distance_parser, feature_parser, st).
                           length newick)", goal_cases)
  case 1
  show ?case by simp
next
  case (2 newick aggregator distance_parser feature_parser st b cs y l ya d c child_strs x s)
  then have p: "parts_of_subtree (strip newick) = Inr (cs, l, d, c)" by simp
  from 2 have "x \<in> set child_strs" "split_nodes cs = Inr child_strs" by simp_all
  then have "length x \<le> length cs" and "cs \<noteq> []"
    by (auto dest: split_nodes_lengths simp: split_nodes.simps[of "[]"] strip_def lstrip_def rstrip_def)
  with parts_children_length[OF p] length_strip[of newick] show ?case by simp
qed

termination parse_newick_subtree
  by (rule parse_newick_subtree_total)

declare parse_newick_subtree.simps [simp del]

text \<open>
  \<open>parse_newick\<close>: the text must end with the terminator, which is cut off.
\<close>

definition parse_newick ::
  "string \<Rightarrow> (string \<Rightarrow> 't list \<Rightarrow> 'd \<Rightarrow> 'f \<Rightarrow> 's \<Rightarrow> (error + 't) \<times> 's)
     \<Rightarrow> (string \<Rightarrow> 's \<Rightarrow> (error + 'd) \<times> 's) \<Rightarrow> (string \<Rightarrow> 's \<Rightarrow> (error + 'f) \<times> 's)
     \<Rightarrow> 's \<Rightarrow> (error + 't) \<times> 's" where
  "parse_newick newick aggregator distance_parser feature_parser st =
     (if \<not> endswith newick CHR '';'' then (Inl FormatError, st)
      else parse_newick_subtree (butlast newick) aggregator distance_parser feature_parser st)"

section \<open>Default callbacks and the documented aggregator\<close>

text \<open>
  A callback without effect leaves the state as it is.
\<close>

definition pure_call :: "('a \<Rightarrow> error + 'b) \<Rightarrow> 'a \<Rightarrow> 's \<Rightarrow> (error + 'b) \<times> 's" where
  "pure_call f x st = (f x, st)"

definition pure_aggregator ::
  "(string \<Rightarrow> 't list \<Rightarrow> 'd \<Rightarrow> 'f \<Rightarrow> 't)
     \<Rightarrow> string \<Rightarrow> 't list \<Rightarrow> 'd \<Rightarrow> 'f \<Rightarrow> 's \<Rightarrow> (error + 't) \<times> 's" where
  "pure_aggregator g label children distance features st =
     (Inr (g label children distance features), st)"

text \<open>
  \<open>_simple_distance\<close> calls Python's builtin \<open>float\<close>, which is not code of the repository:
  it is the parameter \<open>float_of\<close>. The result \<open>None\<close> of the source is \<open>None\<close> here and a
  number \<open>v\<close> is \<open>Some v\<close>.
\<close>

definition simple_distance :: "(string \<Rightarrow> error + 'r) \<Rightarrow> string \<Rightarrow> error + 'r option" where
  "simple_distance float_of dist =
     (if dist \<noteq> [] then (case float_of dist of Inl e \<Rightarrow> Inl e | Inr v \<Rightarrow> Inr (Some v))
      else Inr None)"

definition simple_feature :: "string \<Rightarrow> string" where
  "simple_feature feat = feat"

text \<open>
  The aggregator \<open>tree_as_dict\<close> of the module's documentation returns the label of a leaf
  and, for a node with children, the dictionary with the one key \<open>label\<close>.
\<close>

datatype pytree = PyStr string | PyDict "(string \<times> pytree list) list"

definition tree_as_dict :: "string \<Rightarrow> pytree list \<Rightarrow> 'd \<Rightarrow> 'f \<Rightarrow> pytree" where
  "tree_as_dict label children distance features =
     (if children \<noteq> [] then PyDict [(label, children)] else PyStr label)"

section \<open>Definitions for the specification\<close>

text \<open>
  The usual depth-counting scanner: \<open>scan_close opn cls xs d\<close> reads \<open>xs\<close> with \<open>d\<close> delimiters
  open and returns the offset of the first closing delimiter met with none open.
  \<open>balanced_from opn cls xs d\<close> holds when \<open>xs\<close>, read with \<open>d\<close> delimiters open, never closes
  more than is open and ends with none open. \<open>closes pair s start k\<close>: the closing delimiter
  at \<open>k\<close> balances an opening delimiter just before \<open>start\<close>.
\<close>

fun scan_close :: "char \<Rightarrow> char \<Rightarrow> string \<Rightarrow> nat \<Rightarrow> nat option" where
  "scan_close opn cls [] d = None"
| "scan_close opn cls (x # xs) d =
     (if x = cls then (if d = 0 then Some 0 else map_option Suc (scan_close opn cls xs (d - 1)))
      else if x = opn then map_option Suc (scan_close opn cls xs (Suc d))
      else map_option Suc (scan_close opn cls xs d))"

fun balanced_from :: "char \<Rightarrow> char \<Rightarrow> string \<Rightarrow> nat \<Rightarrow> bool" where
  "balanced_from opn cls [] d = (d = 0)"
| "balanced_from opn cls (x # xs) d =
     (if x = cls then (0 < d \<and> balanced_from opn cls xs (d - 1))
      else if x = opn then balanced_from opn cls xs (Suc d)
      else balanced_from opn cls xs d)"

definition closes :: "char \<times> char \<Rightarrow> string \<Rightarrow> nat \<Rightarrow> nat \<Rightarrow> bool" where
  "closes pair s start k =
     (start \<le> k \<and> k < length s \<and> s ! k = snd pair \<and>
      balanced_from (fst pair) (snd pair) (slice s start k) 0)"

text \<open>
  How label, distance text and comment are read off the text that follows the children
  block, in the words of the specification.
\<close>

definition rest_fields :: "string \<Rightarrow> string \<Rightarrow> string \<Rightarrow> string \<Rightarrow> bool" where
  "rest_fields rest label distance_text comment =
     (\<exists>head.
        (if CHR ''['' \<in> set rest
         then \<exists>tail. rest = head @ CHR ''['' # tail \<and> CHR ''['' \<notin> set head \<and>
                     comment = butlast tail
         else head = rest \<and> comment = []) \<and>
        (if CHR '':'' \<in> set head
         then \<exists>l. head = l @ CHR '':'' # distance_text \<and> CHR '':'' \<notin> set l \<and>
                  label = strip l
         else label = strip head \<and> distance_text = []))"

text \<open>
  \<open>nested st g\<close>: read with the closing delimiters \<open>st\<close> pending, the parentheses and brackets
  of \<open>g\<close> are properly nested and every comma of \<open>g\<close> is inside a pair. A \<open>segment\<close> is the text
  of one sibling, and \<open>join_commas\<close> joins segments with commas as Python's \<open>','.join\<close> does.
\<close>

fun nested :: "char list \<Rightarrow> string \<Rightarrow> bool" where
  "nested st [] = (st = [])"
| "nested st (x # xs) =
     (case grouping x of
        Some pair \<Rightarrow> nested (snd pair # st) xs
      | None \<Rightarrow>
          (if x = CHR '')'' \<or> x = CHR '']''
           then (case st of [] \<Rightarrow> False | t # st' \<Rightarrow> t = x \<and> nested st' xs)
           else if x = CHR '',''  then st \<noteq> [] \<and> nested st xs
           else nested st xs))"

definition segment :: "string \<Rightarrow> bool" where
  "segment g = nested [] g"

fun join_commas :: "string list \<Rightarrow> string" where
  "join_commas [] = []"
| "join_commas [g] = g"
| "join_commas (g # gs) = g @ CHR '','' # join_commas gs"

text \<open>
  The last three calls of \<open>parse_newick_subtree\<close>, for a node whose fields and children are
  known: the feature parser, the distance parser, then the aggregator.
\<close>

definition build_node ::
  "(string \<Rightarrow> 't list \<Rightarrow> 'd \<Rightarrow> 'f \<Rightarrow> 's \<Rightarrow> (error + 't) \<times> 's)
     \<Rightarrow> (string \<Rightarrow> 's \<Rightarrow> (error + 'd) \<times> 's) \<Rightarrow> (string \<Rightarrow> 's \<Rightarrow> (error + 'f) \<times> 's)
     \<Rightarrow> string \<Rightarrow> 't list \<Rightarrow> string \<Rightarrow> string \<Rightarrow> 's \<Rightarrow> (error + 't) \<times> 's" where
  "build_node aggregator distance_parser feature_parser label children distance_str comment_str st =
     (case feature_parser comment_str st of
        (Inl e, st2) \<Rightarrow> (Inl e, st2)
      | (Inr features, st2) \<Rightarrow>
          (case distance_parser distance_str st2 of
             (Inl e, st3) \<Rightarrow> (Inl e, st3)
           | (Inr distance, st3) \<Rightarrow> aggregator label children distance features st3))"

text \<open>
  The node tree of a text, read off the text alone: the fields of a node are those of
  \<open>_parts_of_subtree\<close> and its children are the trees of the entries of \<open>_split_nodes\<close> on the
  children block, in the order of the entries. Neither the builder nor a callback occurs
  in it. \<open>postorder\<close> lists, for each node after its descendants, its label and the number of
  its children. The aggregator \<open>logged_aggregator agg\<close> is \<open>agg\<close> with a log of its calls kept
  beside the state.
\<close>

datatype node = Node string "node list" string string

fun all_results :: "(error + 'a) list \<Rightarrow> error + 'a list" where
  "all_results [] = Inr []"
| "all_results (Inl e # rs) = Inl e"
| "all_results (Inr x # rs) =
     (case all_results rs of Inl e \<Rightarrow> Inl e | Inr xs \<Rightarrow> Inr (x # xs))"

function text_tree :: "string \<Rightarrow> error + node" where
  "text_tree s =
     (case parts_of_subtree (strip s) of
        Inl e \<Rightarrow> Inl e
      | Inr (children_block, label, distance_text, comment_text) \<Rightarrow>
          (case split_nodes children_block of
             Inl e \<Rightarrow> Inl e
           | Inr siblings \<Rightarrow>
               (case all_results (map text_tree siblings) of
                  Inl e \<Rightarrow> Inl e
                | Inr children \<Rightarrow> Inr (Node label children distance_text comment_text))))"
  by pat_completeness auto

lemma text_tree_total: "All text_tree_dom"
proof (relation "measure length", goal_cases)
  case 1
  show ?case by simp
next
  case (2 s b cs y l ya d c siblings x)
  then have p: "parts_of_subtree (strip s) = Inr (cs, l, d, c)" by simp
  from 2 have "x \<in> set siblings" "split_nodes cs = Inr siblings" by simp_all
  then have "length x \<le> length cs" and "cs \<noteq> []"
    by (auto dest: split_nodes_lengths simp: split_nodes.simps[of "[]"] strip_def lstrip_def rstrip_def)
  with parts_children_length[OF p] length_strip[of s] show ?case by simp
qed

termination text_tree
  by (rule text_tree_total)

declare text_tree.simps [simp del]

fun postorder :: "node \<Rightarrow> (string \<times> nat) list" where
  "postorder (Node label children distance_str comment_str) =
     concat (map postorder children) @ [(label, length children)]"

definition logged_aggregator ::
  "(string \<Rightarrow> 't list \<Rightarrow> 'd \<Rightarrow> 'f \<Rightarrow> 's \<Rightarrow> (error + 't) \<times> 's)
     \<Rightarrow> string \<Rightarrow> 't list \<Rightarrow> 'd \<Rightarrow> 'f \<Rightarrow> 's \<times> (string \<times> nat) list
     \<Rightarrow> (error + 't) \<times> 's \<times> (string \<times> nat) list" where
  "logged_aggregator agg label children distance features =
     (\<lambda>(st, log). case agg label children distance features st of
                     (r, st') \<Rightarrow> (r, (st', log @ [(label, length children)])))"

definition unlogged ::
  "(string \<Rightarrow> 's \<Rightarrow> (error + 'a) \<times> 's)
     \<Rightarrow> string \<Rightarrow> 's \<times> (string \<times> nat) list \<Rightarrow> (error + 'a) \<times> 's \<times> (string \<times> nat) list" where
  "unlogged f x = (\<lambda>(st, log). case f x st of (r, st') \<Rightarrow> (r, (st', log)))"

section \<open>The scanner finds the balancing delimiter\<close>

lemma scan_close_compose:
  "scan_close opn cls xs (d + Suc e) =
     (case scan_close opn cls xs d of
        None \<Rightarrow> None
      | Some k \<Rightarrow> map_option (\<lambda>j. k + 1 + j) (scan_close opn cls (drop (k + 1) xs) e))"
proof (induction xs arbitrary: d)
  case Nil
  show ?case by simp
next
  case (Cons x xs)
  show ?case
  proof (cases "x = cls")
    case True
    show ?thesis
    proof (cases d)
      case 0
      with True show ?thesis by (simp add: map_option_case split: option.splits)
    next
      case (Suc d')
      with True Cons.IH[of d'] show ?thesis
        by (simp add: map_option_case split: option.splits)
    qed
  next
    case False
    with Cons.IH[of "Suc d"] Cons.IH[of d] show ?thesis
      by (simp add: map_option_case split: option.splits)
  qed
qed

lemma scan_close_Suc:
  "scan_close opn cls xs (Suc e) =
     (case scan_close opn cls xs 0 of
        None \<Rightarrow> None
      | Some k \<Rightarrow> map_option (\<lambda>j. k + 1 + j) (scan_close opn cls (drop (k + 1) xs) e))"
  using scan_close_compose[of opn cls xs 0 e] by simp

lemma scan_close_None: "cls \<notin> set xs \<Longrightarrow> scan_close opn cls xs d = None"
  by (induction xs arbitrary: d) auto

lemma scan_close_skip:
  "opn \<notin> set u \<Longrightarrow> cls \<notin> set u \<Longrightarrow>
     scan_close opn cls (u @ ys) d = map_option (\<lambda>j. length u + j) (scan_close opn cls ys d)"
  by (induction u) (auto simp: map_option_case split: option.splits)

lemma scan_close_iff:
  "opn \<noteq> cls \<Longrightarrow>
   scan_close opn cls xs d = Some k \<longleftrightarrow>
     k < length xs \<and> xs ! k = cls \<and> balanced_from opn cls (take k xs) d"
proof (induction xs arbitrary: d k)
  case Nil
  show ?case by simp
next
  case (Cons x xs)
  show ?case
  proof (cases k)
    case 0
    then show ?thesis using Cons.prems by auto
  next
    case (Suc k')
    with Cons.prems Cons.IH[of "d - 1" k'] Cons.IH[of "Suc d" k'] Cons.IH[of d k']
    show ?thesis by auto
  qed
qed

lemma str_find_None: "str_find s c start = None \<longleftrightarrow> c \<notin> set (drop start s)"
  by (simp add: str_find_def)

lemma str_find_Some:
  "str_find s c start = Some i \<Longrightarrow>
     \<exists>u w. drop start s = u @ c # w \<and> c \<notin> set u \<and> i = start + length u"
proof -
  assume a: "str_find s c start = Some i"
  then have mem: "c \<in> set (drop start s)"
    and i: "i = start + length (takeWhile (\<lambda>x. x \<noteq> c) (drop start s))"
    by (auto simp: str_find_def split: if_splits)
  from split_list_first[OF mem] obtain u w where
    d: "drop start s = u @ c # w" and nu: "c \<notin> set u" by blast
  from nu have "takeWhile (\<lambda>x. x \<noteq> c) (u @ c # w) = u"
    by (induction u) auto
  with d i nu show ?thesis by auto
qed

lemma prefix_no_mem:
  assumes "u @ a # w = u' @ b # w'" and "length u < length u'" and "b \<notin> set u'"
  shows "b \<notin> set u \<and> a \<noteq> b"
proof -
  from assms(1) obtain us where
    "(u = u' @ us \<and> us @ a # w = b # w') \<or> (u @ us = u' \<and> a # w = us @ b # w')"
    by (auto simp: append_eq_append_conv2)
  with assms(2) have us: "u @ us = u'" "a # w = us @ b # w'" by auto
  with assms(2) obtain us' where "us = a # us'" by (cases us) auto
  with us assms(3) show ?thesis by auto
qed

lemma find_closing_scan:
  assumes neq: "opn \<noteq> cls"
  shows "find_closing s start (opn, cls) =
           (case scan_close opn cls (drop start s) 0 of
              None \<Rightarrow> Inl SubstringNotFound
            | Some k \<Rightarrow> Inr (start + k))"
proof (induction s start "(opn, cls)" rule: find_closing.induct)
  case (1 s start)
  let ?xs = "drop start s"
  note eq = find_closing.simps[of s start "(opn, cls)"]
  show ?case
  proof (cases "str_find s cls start")
    case None
    then have "cls \<notin> set ?xs" by (simp add: str_find_None)
    then have "scan_close opn cls ?xs 0 = None" by (rule scan_close_None)
    with None eq show ?thesis by (simp add: str_index_def)
  next
    case (Some nc)
    from str_find_Some[OF Some] obtain u w where
      xs: "?xs = u @ cls # w" and nu: "cls \<notin> set u" and nc: "nc = start + length u"
      by blast
    have ci: "str_index s cls start = Inr nc" using Some by (simp add: str_index_def)
    have direct: "scan_close opn cls ?xs 0 = Some (length u)" if "opn \<notin> set u"
      using scan_close_skip[OF that nu, of "cls # w" 0] xs by simp
    show ?thesis
    proof (cases "str_find s opn start")
      case None
      then have "opn \<notin> set ?xs" by (simp add: str_find_None)
      with xs have "opn \<notin> set u" by simp
      from direct[OF this] eq ci None nc show ?thesis by simp
    next
      case SomeO: (Some no)
      from str_find_Some[OF SomeO] obtain u' w' where
        xs': "?xs = u' @ opn # w'" and nu': "opn \<notin> set u'" and no: "no = start + length u'"
        by blast
      have oi: "str_index s opn start = Inr no" using SomeO by (simp add: str_index_def)
      have fo: "str_find s opn start \<noteq> None" using SomeO by simp
      show ?thesis
      proof (cases "nc < no")
        case True
        then have "length u < length u'" using nc no by simp
        have "u @ cls # w = u' @ opn # w'" using xs xs' by simp
        from prefix_no_mem[OF this \<open>length u < length u'\<close> nu'] have "opn \<notin> set u" by simp
        from direct[OF this] eq ci oi fo True nc show ?thesis by simp
      next
        case False
        have "length u \<noteq> length u'"
        proof
          assume "length u = length u'"
          with xs xs' have "cls = opn" by auto
          with neq show False by simp
        qed
        with False nc no have lt: "length u' < length u" by simp
        have "u' @ opn # w' = u @ cls # w" using xs xs' by simp
        from prefix_no_mem[OF this lt nu] have nc': "cls \<notin> set u'" by simp
        have "drop (length u' + 1) (drop start s) = w'"
          unfolding xs' by simp
        then have dw: "drop (no + 1) s = w'"
          by (simp add: no add.commute)
        have sc: "scan_close opn cls ?xs 0 =
                    map_option (\<lambda>j. length u' + 1 + j) (scan_close opn cls w' (Suc 0))"
          using scan_close_skip[OF nu' nc', of "opn # w'" 0] xs' neq
          by (simp add: map_option_case split: option.splits)
        have ci': "str_index s (snd (opn, cls)) start = Inr nc"
          and fo': "str_find s (fst (opn, cls)) start \<noteq> None"
          and oi': "str_index s (fst (opn, cls)) start = Inr no"
          using ci fo oi by simp_all
        note ih1 = "1.hyps"(1)[OF ci' fo' oi' False]
        show ?thesis
        proof (cases "scan_close opn cls w' 0")
          case None
          with ih1 dw have "find_closing s (no + 1) (opn, cls) = Inl SubstringNotFound" by simp
          moreover from None sc have "scan_close opn cls ?xs 0 = None"
            by (simp add: scan_close_Suc)
          ultimately show ?thesis using eq ci oi fo False by simp
        next
          case (Some k)
          with ih1 dw have f1: "find_closing s (no + 1) (opn, cls) = Inr (no + 1 + k)" by simp
          have "drop (k + 1) (drop (no + 1) s) = drop (k + 1) w'"
            using dw by simp
          then have dk: "drop (no + 1 + k + 1) s = drop (k + 1) w'"
            by (simp add: add.commute)
          note ih2 = "1.hyps"(2)[OF ci' fo' oi' False f1]
          from Some sc have "scan_close opn cls ?xs 0 =
             map_option (\<lambda>j. length u' + 1 + (k + 1 + j)) (scan_close opn cls (drop (k + 1) w') 0)"
            by (simp add: scan_close_Suc map_option_case split: option.splits)
          with ih2 dk eq ci oi fo False f1 no show ?thesis
            by (simp add: map_option_case split: option.splits)
        qed
      qed
    qed
  qed
qed

lemma balanced_suffix:
  "balanced_from opn cls xs d \<Longrightarrow> i < length xs \<Longrightarrow> xs ! i = opn \<Longrightarrow> opn \<noteq> cls \<Longrightarrow>
     \<exists>e. balanced_from opn cls (drop (Suc i) xs) (Suc e)"
proof (induction xs arbitrary: i d)
  case Nil
  then show ?case by simp
next
  case (Cons x xs)
  show ?case
  proof (cases i)
    case 0
    with Cons.prems show ?thesis by auto
  next
    case (Suc j)
    with Cons.prems have "\<exists>d'. balanced_from opn cls xs d'" "j < length xs" "xs ! j = opn"
      by (auto split: if_splits)
    with Cons.IH[of _ j] Cons.prems(4) Suc show ?thesis by auto
  qed
qed

lemma balanced_scan_close:
  "balanced_from opn cls ys e \<Longrightarrow> d < e \<Longrightarrow> scan_close opn cls ys d \<noteq> None"
proof (induction ys arbitrary: e d)
  case Nil
  then show ?case by simp
next
  case (Cons y ys)
  show ?case
  proof (cases "y = cls")
    case True
    show ?thesis
    proof (cases d)
      case 0
      with True show ?thesis by simp
    next
      case (Suc d')
      with True Cons.prems Cons.IH[of "e - 1" d'] show ?thesis by auto
    qed
  next
    case False
    with Cons.prems Cons.IH[of "Suc e" "Suc d"] Cons.IH[of e d] show ?thesis
      by (auto split: if_splits)
  qed
qed

lemma closes_scan:
  assumes "opn \<noteq> cls"
  shows "closes (opn, cls) s start k \<longleftrightarrow>
           start \<le> k \<and> scan_close opn cls (drop start s) 0 = Some (k - start)"
proof (cases "start \<le> k")
  case True
  then have "slice s start k = take (k - start) (drop start s)"
    by (simp add: slice_def)
  moreover from True have "k < length s \<longleftrightarrow> k - start < length (drop start s)"
    by auto
  moreover from True have "k < length s \<Longrightarrow> drop start s ! (k - start) = s ! k"
    by simp
  ultimately show ?thesis
    using True scan_close_iff[OF assms, of "drop start s" 0 "k - start"]
    by (auto simp: closes_def)
next
  case False
  then show ?thesis by (simp add: closes_def)
qed

lemma find_closing_closes:
  assumes "opn \<noteq> cls"
  shows "find_closing s start (opn, cls) = Inr k \<longleftrightarrow> closes (opn, cls) s start k"
proof -
  have "find_closing s start (opn, cls) = Inr k \<longleftrightarrow>
          start \<le> k \<and> scan_close opn cls (drop start s) 0 = Some (k - start)"
    by (auto simp: find_closing_scan[OF assms] split: option.splits)
  then show ?thesis by (simp add: closes_scan[OF assms])
qed

lemma find_closing_fails:
  assumes "opn \<noteq> cls" and "\<forall>k. \<not> closes (opn, cls) s start k"
  shows "find_closing s start (opn, cls) = Inl SubstringNotFound"
proof (cases "scan_close opn cls (drop start s) 0")
  case None
  then show ?thesis by (simp add: find_closing_scan[OF assms(1)])
next
  case (Some k)
  then have "closes (opn, cls) s start (start + k)"
    by (simp add: closes_scan[OF assms(1)])
  with assms(2) show ?thesis by blast
qed

section \<open>Unfolding the tree builder\<close>

lemma parse_newick_subtree_unfold:
  "parse_newick_subtree s agg dp fp st =
     (case parts_of_subtree (strip s) of
        Inl e \<Rightarrow> (Inl e, st)
      | Inr (cs, l, d, c) \<Rightarrow>
          (case split_nodes cs of
             Inl e \<Rightarrow> (Inl e, st)
           | Inr strs \<Rightarrow>
               (case map_calls (\<lambda>x. parse_newick_subtree x agg dp fp) strs st of
                  (Inl e, st1) \<Rightarrow> (Inl e, st1)
                | (Inr ch, st1) \<Rightarrow> build_node agg dp fp l ch d c st1)))"
  by (subst parse_newick_subtree.simps) (simp add: build_node_def split: sum.splits prod.splits)

lemma split_nodes_empty: "strip s = [] \<Longrightarrow> split_nodes s = Inr []"
  by (subst split_nodes.simps) simp

lemma strip_Nil: "strip [] = []"
  by (simp add: strip_def lstrip_def rstrip_def)

lemma parse_leaf:
  assumes "parts_of_subtree (strip s) = Inr ([], l, d, c)"
  shows "parse_newick_subtree s agg dp fp st = build_node agg dp fp l [] d c st"
  by (subst parse_newick_subtree_unfold) (simp add: assms split_nodes_empty strip_Nil)

lemma parts_no_children:
  assumes "\<not> startswith s CHR ''(''"
  shows "\<exists>l d c. parts_of_subtree s = Inr ([], l, d, c)"
  using assms by (simp add: parts_of_subtree_def Let_def split: prod.splits)

lemma parse_node:
  assumes "parts_of_subtree (strip s) = Inr (cs, l, d, c)"
    and "split_nodes cs = Inr strs"
    and "map_calls (\<lambda>x. parse_newick_subtree x agg dp fp) strs st = (Inr ch, st1)"
  shows "parse_newick_subtree s agg dp fp st = build_node agg dp fp l ch d c st1"
  by (subst parse_newick_subtree_unfold) (simp add: assms)

lemma default_leaf:
  assumes "parts_of_subtree (strip s) = Inr ([], l, [], [])"
  shows "parse_newick_subtree s (pure_aggregator tree_as_dict)
           (pure_call (simple_distance float_of)) (pure_call (\<lambda>s. Inr (simple_feature s))) st =
         (Inr (PyStr l), st)"
  by (simp add: parse_leaf[OF assms] build_node_def pure_call_def pure_aggregator_def
      simple_distance_def tree_as_dict_def)

lemma default_inner:
  assumes "parts_of_subtree (strip s) = Inr (cs, l, [], [])"
    and "split_nodes cs = Inr strs"
    and "map_calls (\<lambda>x. parse_newick_subtree x (pure_aggregator tree_as_dict)
           (pure_call (simple_distance float_of)) (pure_call (\<lambda>s. Inr (simple_feature s)))) strs st
         = (Inr ch, st)"
    and "ch \<noteq> []"
  shows "parse_newick_subtree s (pure_aggregator tree_as_dict)
           (pure_call (simple_distance float_of)) (pure_call (\<lambda>s. Inr (simple_feature s))) st =
         (Inr (PyDict [(l, ch)]), st)"
  using assms(4)
  by (simp add: parse_node[OF assms(1,2,3)] build_node_def pure_call_def pure_aggregator_def
      simple_distance_def tree_as_dict_def)

section \<open>Recursive calls and their arguments\<close>

lemma find_closing_calls_advance:
  assumes "str_index s (fst pair) start = Inr no"
  shows "start < no + 1 \<and> no + 1 \<le> length s \<and>
         (find_closing s (no + 1) pair = Inr skip \<longrightarrow> start < skip + 1 \<and> skip + 1 \<le> length s)"
  using str_index_bounds[OF assms] find_closing_bounds[of s "no + 1" pair skip] by auto

lemma split_nodes_rel_shorter:
  assumes "split_nodes_rel t' t"
  shows "length t' < length t"
  using assms
proof (cases rule: split_nodes_rel.cases)
  case (1 x)
  then have "0 < length x" "length x \<le> length t"
    by (simp_all add: length_strip)
  then have "length x - 1 < length t" by arith
  with 1 show ?thesis by simp
next
  case (2 x)
  then have "0 < length x" "length x \<le> length t"
    by (simp_all add: length_strip)
  then have "length x - 1 < length t" by arith
  with 2 show ?thesis by simp
next
  case (3 x b node rest0)
  from 3 have "strip x = x" by (simp add: strip_idem)
  with next_node_end_range[of x b] 3 have b: "0 \<le> b" "b < int (length x)"
    by auto
  then have "length (py_from x (b + 1)) < length x"
    by (auto simp: py_from_def)
  moreover have "length t' \<le> length rest0"
    using 3 by simp
  moreover have "length rest0 \<le> length (py_from x (b + 1))"
    using 3 by (simp add: length_lstrip)
  ultimately show ?thesis using length_strip[of t] 3 by simp
qed

lemma parse_newick_subtree_rel_shorter:
  assumes "parse_newick_subtree_rel (n', agg', dp', fp', st') (n, agg, dp, fp, st)"
  shows "length n' < length n \<and> agg' = agg \<and> dp' = dp \<and> fp' = fp"
  using assms
proof (cases rule: parse_newick_subtree_rel.cases)
  case (1 b cs y l ya d c child_strs)
  then have p: "parts_of_subtree (strip n) = Inr (cs, l, d, c)" by simp
  from 1 have "n' \<in> set child_strs" "split_nodes cs = Inr child_strs" by simp_all
  then have "length n' \<le> length cs" and "cs \<noteq> []"
    by (auto dest: split_nodes_lengths simp: split_nodes_empty strip_Nil)
  with parts_children_length[OF p] length_strip[of n] 1 show ?thesis by simp
qed

section \<open>The order of the aggregator calls\<close>

lemma build_node_Inr:
  assumes "build_node agg dp fp l ch d c st = (Inr t, st')"
  obtains fv st2 dv st3 where "fp c st = (Inr fv, st2)" "dp d st2 = (Inr dv, st3)"
    "agg l ch dv fv st3 = (Inr t, st')"
  using assms by (auto simp: build_node_def split: prod.splits sum.splits)

section \<open>The fields of a node\<close>

lemma split_once_first:
  assumes "c \<in> set s"
  obtains h t where "s = h @ c # t" "c \<notin> set h" "split_once c s = (h, t)"
proof -
  from split_list_first[OF assms] obtain h t where s: "s = h @ c # t" and n: "c \<notin> set h"
    by blast
  from n have "takeWhile (\<lambda>x. x \<noteq> c) (h @ c # t) = h"
    and "dropWhile (\<lambda>x. x \<noteq> c) (h @ c # t) = c # t"
    by (induction h) auto
  with s have "split_once c s = (h, t)" by (simp add: split_once_def)
  with s n that show thesis by blast
qed

lemma parts_of_subtree_rest:
  assumes "(if startswith s CHR ''(''
            then (case find_closing_parenthesis s of
                    Inl e \<Rightarrow> Inl e
                  | Inr children_end \<Rightarrow>
                      Inr (slice s 1 children_end, drop (children_end + 1) s))
            else Inr ([], s)) = Inr (cb, rest)"
  shows "\<exists>label dist comment.
           parts_of_subtree s = Inr (cb, label, dist, comment) \<and>
           rest_fields rest label dist comment"
proof -
  obtain head comment where hc:
    "(if CHR ''['' \<in> set rest
      then (case split_once CHR ''['' rest of (r, c) \<Rightarrow> (r, butlast c))
      else (rest, [])) = (head, comment)"
    and hc': "if CHR ''['' \<in> set rest
         then \<exists>tail. rest = head @ CHR ''['' # tail \<and> CHR ''['' \<notin> set head \<and>
                     comment = butlast tail
         else head = rest \<and> comment = []"
  proof (cases "CHR ''['' \<in> set rest")
    case True
    from split_once_first[OF True] obtain h t where
      "rest = h @ CHR ''['' # t" "CHR ''['' \<notin> set h" "split_once CHR ''['' rest = (h, t)"
      by blast
    with True that[of h "butlast t"] show thesis by auto
  next
    case False
    with that[of rest "[]"] show thesis by simp
  qed
  obtain l dist where ld:
    "(if CHR '':'' \<in> set head then split_once CHR '':'' head else (head, [])) = (l, dist)"
    and ld': "if CHR '':'' \<in> set head
         then \<exists>l'. head = l' @ CHR '':'' # dist \<and> CHR '':'' \<notin> set l' \<and> strip l = strip l'
         else strip l = strip head \<and> dist = []"
  proof (cases "CHR '':'' \<in> set head")
    case True
    from split_once_first[OF True] obtain h t where
      "head = h @ CHR '':'' # t" "CHR '':'' \<notin> set h" "split_once CHR '':'' head = (h, t)"
      by blast
    with True that[of h t] show thesis by auto
  next
    case False
    with that[of head "[]"] show thesis by simp
  qed
  have "parts_of_subtree s = Inr (cb, strip l, dist, comment)"
    unfolding parts_of_subtree_def assms by (simp add: hc ld)
  moreover have "rest_fields rest (strip l) dist comment"
    unfolding rest_fields_def using hc' ld' by (intro exI[of _ head]) (auto split: if_splits)
  ultimately show ?thesis by blast
qed

lemma closes_paren_decompose:
  assumes "closes paren s 1 k" and "startswith s CHR ''(''"
  shows "s = CHR ''('' # slice s 1 k @ CHR '')'' # drop (k + 1) s \<and> length (slice s 1 k) = k - 1"
proof -
  from assms(1) have k: "1 \<le> k" "k < length s" "s ! k = CHR '')''"
    by (simp_all add: closes_def paren_def)
  from assms(2) obtain s' where s: "s = CHR ''('' # s'"
    by (cases s) (auto simp: startswith_def)
  from k(2) have "s = take k s @ s ! k # drop (Suc k) s"
    by (rule id_take_nth_drop)
  moreover from s k have "take k s = CHR ''('' # slice s 1 k"
    by (cases k) (auto simp: slice_def)
  ultimately have "s = (CHR ''('' # slice s 1 k) @ CHR '')'' # drop (k + 1) s"
    using k by simp
  moreover from k have "length (slice s 1 k) = k - 1" by (auto simp: slice_def)
  ultimately show ?thesis by simp
qed

section \<open>Splitting a list of siblings\<close>

lemma nested_closer:
  assumes "pair = paren \<or> pair = bracket"
  shows "nested (st1 @ snd pair # st) xs \<Longrightarrow>
     \<exists>k < length xs. xs ! k = snd pair \<and>
        balanced_from (fst pair) (snd pair) (take k xs) (count_list st1 (snd pair)) \<and>
        nested st (drop (Suc k) xs)"
proof (induction xs arbitrary: st1)
  case Nil
  then show ?case by simp
next
  case (Cons x xs)
  show ?case
  proof (cases "grouping x")
    case (Some p)
    with Cons.prems have n: "nested ((snd p # st1) @ snd pair # st) xs" by simp
    from Some have p: "(x = CHR ''('' \<and> p = paren) \<or> (x = CHR ''['' \<and> p = bracket)"
      by (auto simp: grouping_def split: if_splits)
    from Cons.IH[OF n] obtain k where k: "k < length xs" "xs ! k = snd pair"
      "balanced_from (fst pair) (snd pair) (take k xs) (count_list (snd p # st1) (snd pair))"
      "nested st (drop (Suc k) xs)" by blast
    from k(3) p assms
    have "balanced_from (fst pair) (snd pair) (take (Suc k) (x # xs)) (count_list st1 (snd pair))"
      by (auto simp: paren_def bracket_def)
    with k show ?thesis by (intro exI[of _ "Suc k"]) simp
  next
    case None
    then have ng: "x \<noteq> CHR ''(''" "x \<noteq> CHR ''[''"
      by (auto simp: grouping_def split: if_splits)
    show ?thesis
    proof (cases "x = CHR '')'' \<or> x = CHR '']''")
      case True
      show ?thesis
      proof (cases st1)
        case Nil
        with Cons.prems None True have "x = snd pair" "nested st xs" by auto
        with Nil show ?thesis by (intro exI[of _ 0]) simp
      next
        case (Cons t st1')
        with Cons.prems None True have tx: "t = x" and n: "nested (st1' @ snd pair # st) xs"
          by auto
        from Cons.IH[OF n] obtain k where k: "k < length xs" "xs ! k = snd pair"
          "balanced_from (fst pair) (snd pair) (take k xs) (count_list st1' (snd pair))"
          "nested st (drop (Suc k) xs)" by blast
        from k(3) True tx Cons assms ng
        have "balanced_from (fst pair) (snd pair) (take (Suc k) (x # xs))
                (count_list st1 (snd pair))"
          by (auto simp: paren_def bracket_def)
        with k show ?thesis by (intro exI[of _ "Suc k"]) simp
      qed
    next
      case False
      with Cons.prems None have n: "nested (st1 @ snd pair # st) xs"
        by (auto split: if_splits)
      from Cons.IH[OF n] obtain k where k: "k < length xs" "xs ! k = snd pair"
        "balanced_from (fst pair) (snd pair) (take k xs) (count_list st1 (snd pair))"
        "nested st (drop (Suc k) xs)" by blast
      from k(3) False ng assms
      have "balanced_from (fst pair) (snd pair) (take (Suc k) (x # xs))
              (count_list st1 (snd pair))"
        by (auto simp: paren_def bracket_def)
      with k show ?thesis by (intro exI[of _ "Suc k"]) simp
    qed
  qed
qed

lemma find_closing_nested:
  assumes pr: "pair = paren \<or> pair = bracket"
    and p: "p < length h" and hp: "h ! p = fst pair" and n: "nested [] (drop p h)"
  shows "\<exists>k. p < k \<and> k < length h \<and> find_closing (h @ rest) (p + 1) pair = Inr k \<and>
             h ! k = snd pair \<and> nested [] (drop (Suc k) h)"
proof -
  let ?u = "drop (Suc p) h"
  from p have "drop p h = h ! p # ?u" by (simp add: Cons_nth_drop_Suc)
  with hp have d: "drop p h = fst pair # ?u" by simp
  from pr have g: "grouping (fst pair) = Some pair"
    by (auto simp: grouping_def paren_def bracket_def)
  from n d g have "nested ([] @ snd pair # []) ?u" by simp
  from nested_closer[OF pr this] obtain k0 where k0: "k0 < length ?u" "?u ! k0 = snd pair"
    "balanced_from (fst pair) (snd pair) (take k0 ?u) 0" "nested [] (drop (Suc k0) ?u)"
    by auto
  let ?k = "p + 1 + k0"
  from k0(1) have kl: "?k < length h" by simp
  from k0(2) kl have hk: "h ! ?k = snd pair" by (simp add: add.commute)
  have "slice (h @ rest) (p + 1) ?k = take k0 (drop (Suc p) (h @ rest))"
    by (simp add: slice_def)
  also have "\<dots> = take k0 ?u" using k0(1) p by simp
  finally have sl: "slice (h @ rest) (p + 1) ?k = take k0 ?u" .
  from kl hk have "(h @ rest) ! ?k = snd pair" by (simp add: nth_append)
  with kl sl k0(3) have "closes pair (h @ rest) (p + 1) ?k"
    by (simp add: closes_def)
  moreover from pr have "fst pair \<noteq> snd pair" by (auto simp: paren_def bracket_def)
  ultimately have "find_closing (h @ rest) (p + 1) pair = Inr ?k"
    using find_closing_closes[of "fst pair" "snd pair" "h @ rest" "p + 1" ?k] by simp
  moreover from k0(4) have "nested [] (drop (Suc ?k) h)" by (simp add: add.commute)
  ultimately show ?thesis using kl hk by (intro exI[of _ ?k]) simp
qed

lemma scan_node_end_segment:
  assumes r: "rest = [] \<or> hd rest = CHR '',''"
  shows "p \<le> length h \<Longrightarrow> nested [] (drop p h) \<Longrightarrow>
           scan_node_end (h @ rest) p = Inr (int (length h) - 1)"
proof (induction "length h - p" arbitrary: p rule: less_induct)
  case less
  let ?s = "h @ rest"
  show ?case
  proof (cases "p < length h")
    case False
    with less.prems have pe: "p = length h" by simp
    show ?thesis
    proof (cases rest)
      case Nil
      with pe show ?thesis by (subst scan_node_end.simps) simp
    next
      case (Cons c cs)
      with r have "c = CHR '',''" by simp
      with Cons pe show ?thesis
        by (subst scan_node_end.simps) (simp add: grouping_def)
    qed
  next
    case True
    then have d: "drop p h = h ! p # drop (Suc p) h" by (simp add: Cons_nth_drop_Suc)
    from True have sp: "?s ! p = h ! p" "p < length ?s" by (simp_all add: nth_append)
    show ?thesis
    proof (cases "grouping (h ! p)")
      case (Some pair)
      then have pr: "pair = paren \<or> pair = bracket" and hp: "h ! p = fst pair"
        by (auto simp: grouping_def paren_def bracket_def split: if_splits)
      from find_closing_nested[OF pr True hp less.prems(2), of rest]
      obtain k where k: "p < k" "k < length h" "find_closing ?s (p + 1) pair = Inr k"
        "h ! k = snd pair" "nested [] (drop (Suc k) h)" by blast
      from k(2,4) pr have sk: "?s ! k = snd pair" "k < length ?s"
        "grouping (?s ! k) = None" "?s ! k \<noteq> CHR '',''"
        by (auto simp: nth_append grouping_def paren_def bracket_def)
      have "scan_node_end ?s (k + 1) = Inr (int (length h) - 1)"
        by (rule less.hyps) (use k True in auto)
      with sk have "scan_node_end ?s k = Inr (int (length h) - 1)"
        by (subst scan_node_end.simps) simp
      with Some sp k(3) show ?thesis
        by (subst scan_node_end.simps) simp
    next
      case None
      with less.prems(2) d have nx: "h ! p \<noteq> CHR '',''" and n': "nested [] (drop (Suc p) h)"
        by (auto split: if_splits)
      have "scan_node_end ?s (p + 1) = Inr (int (length h) - 1)"
        by (rule less.hyps) (use n' True in auto)
      with None nx sp show ?thesis
        by (subst scan_node_end.simps) simp
    qed
  qed
qed

lemma next_node_end_segment:
  assumes n: "nested [] h" and ne: "h \<noteq> []" and r: "rest = [] \<or> hd rest = CHR '',''"
    and st: "strip (h @ rest) = h @ rest"
  shows "next_node_end (h @ rest) = Inr (int (length h) - 1)"
proof (cases "startswith (h @ rest) CHR ''(''")
  case True
  with ne have h0: "h ! 0 = fst paren" "0 < length h"
    by (cases h; simp add: startswith_def paren_def)+
  from find_closing_nested[of paren 0 h rest] h0 n
  obtain k where k: "k < length h" "find_closing (h @ rest) 1 paren = Inr k"
    "h ! k = snd paren" "nested [] (drop (Suc k) h)" by auto
  let ?s = "h @ rest"
  from k(1,3) have sk: "?s ! k = snd paren" "k < length ?s"
    "grouping (?s ! k) = None" "?s ! k \<noteq> CHR '',''"
    by (auto simp: nth_append grouping_def paren_def)
  have "scan_node_end ?s (k + 1) = Inr (int (length h) - 1)"
    by (rule scan_node_end_segment[OF r]) (use k in auto)
  with sk have "scan_node_end ?s k = Inr (int (length h) - 1)"
    by (subst scan_node_end.simps) simp
  with True k(2) st show ?thesis
    by (simp add: next_node_end_def find_closing_parenthesis_def)
next
  case False
  have "scan_node_end (h @ rest) 0 = Inr (int (length h) - 1)"
    by (rule scan_node_end_segment[OF r]) (use n in auto)
  with False st show ?thesis by (simp add: next_node_end_def)
qed

lemma join_commas_Cons:
  "join_commas (h # t) = (if t = [] then h else h @ CHR '','' # join_commas t)"
  by (cases t) simp_all

lemma join_commas_snoc:
  "join_commas (bl @ [l]) = (if bl = [] then l else join_commas bl @ CHR '','' # l)"
  by (induction bl rule: join_commas.induct) simp_all

lemma join_commas_empty: "join_commas t = [] \<Longrightarrow> t = [] \<or> t = [[]]"
  by (cases t) (auto simp: join_commas_Cons split: if_splits)

lemma is_space_plain:
  "is_space c \<Longrightarrow> grouping c = None \<and> c \<noteq> CHR '')'' \<and> c \<noteq> CHR '']'' \<and> c \<noteq> CHR '',''"
  by (auto simp: is_space_def grouping_def)

lemma nested_lstrip: "nested st (lstrip g) = nested st g"
  unfolding lstrip_def by (induction g) (auto simp: is_space_plain)

lemma nested_spaces: "\<forall>c\<in>set b. is_space c \<Longrightarrow> nested st b = (st = [])"
  by (induction b) (auto simp: is_space_plain)

lemma nested_append_spaces:
  "\<forall>c\<in>set b. is_space c \<Longrightarrow> nested st (xs @ b) = nested st xs"
proof (induction xs arbitrary: st)
  case Nil
  then show ?case by (simp add: nested_spaces)
next
  case (Cons x xs)
  then show ?case by (auto split: option.splits list.splits)
qed

lemma rstrip_decomp: "\<exists>b. g = rstrip g @ b \<and> (\<forall>c\<in>set b. is_space c)"
proof -
  have "rev g = takeWhile is_space (rev g) @ dropWhile is_space (rev g)" by simp
  then have "g = rev (dropWhile is_space (rev g)) @ rev (takeWhile is_space (rev g))"
    by (metis rev_append rev_rev_ident)
  moreover have "\<forall>c\<in>set (rev (takeWhile is_space (rev g))). is_space c"
    by (auto dest: set_takeWhileD)
  ultimately show ?thesis unfolding rstrip_def by blast
qed

lemma lstrip_decomp: "\<exists>a. g = a @ lstrip g \<and> (\<forall>c\<in>set a. is_space c)"
proof -
  have "g = takeWhile is_space g @ dropWhile is_space g" by simp
  moreover have "\<forall>c\<in>set (takeWhile is_space g). is_space c"
    by (auto dest: set_takeWhileD)
  ultimately show ?thesis unfolding lstrip_def by blast
qed

lemma nested_rstrip: "nested st (rstrip g) = nested st g"
proof -
  from rstrip_decomp[of g] obtain b where "g = rstrip g @ b" "\<forall>c\<in>set b. is_space c" by blast
  then show ?thesis using nested_append_spaces[of b st "rstrip g"] by simp
qed

lemma nested_strip: "nested st (strip g) = nested st g"
  by (simp add: strip_def nested_rstrip nested_lstrip)

lemma lstrip_spaces: "\<forall>c\<in>set a. is_space c \<Longrightarrow> lstrip (a @ r) = lstrip r"
  by (induction a) (auto simp: lstrip_def)

lemma rstrip_spaces: "\<forall>c\<in>set b. is_space c \<Longrightarrow> rstrip (r @ b) = rstrip r"
  by (simp add: rstrip_def dropWhile_append)

lemma lstrip_append: "\<not> is_space c \<Longrightarrow> lstrip (a @ c # r) = lstrip a @ c # r"
  by (induction a) (auto simp: lstrip_def)

lemma rstrip_append: "\<not> is_space c \<Longrightarrow> rstrip (r @ c # a) = r @ c # rstrip a"
proof -
  assume c: "\<not> is_space c"
  have "dropWhile is_space (rev a @ c # rev r) = dropWhile is_space (rev a) @ c # rev r"
    using c by (induction "rev a" arbitrary: a) (auto simp: dropWhile_append)
  then show ?thesis by (simp add: rstrip_def)
qed

lemma strip_empty_iff: "strip s = [] \<longleftrightarrow> (\<forall>c\<in>set s. is_space c)"
proof
  assume "strip s = []"
  moreover from lstrip_decomp[of s] obtain a where a: "s = a @ lstrip s" "\<forall>c\<in>set a. is_space c"
    by blast
  moreover from rstrip_decomp[of "lstrip s"] obtain b where
    b: "lstrip s = rstrip (lstrip s) @ b" "\<forall>c\<in>set b. is_space c" by blast
  ultimately have "s = a @ b" by (simp add: strip_def)
  with a b show "\<forall>c\<in>set s. is_space c" by (metis Un_iff set_append)
next
  assume "\<forall>c\<in>set s. is_space c"
  then have "lstrip s = []" by (simp add: lstrip_def)
  then show "strip s = []" by (simp add: strip_def rstrip_def)
qed

lemma strip_unique:
  assumes "\<forall>c\<in>set a. is_space c" and "\<forall>c\<in>set b. is_space c"
    and "m = [] \<or> (\<not> is_space (hd m) \<and> \<not> is_space (last m))"
  shows "strip (a @ m @ b) = m"
proof (cases "m = []")
  case True
  with assms have "\<forall>c\<in>set (a @ m @ b). is_space c" by auto
  with True show ?thesis by (simp only: strip_empty_iff[symmetric])
next
  case False
  with assms(3) have e: "\<not> is_space (hd m)" "\<not> is_space (last m)" by simp_all
  have "lstrip (a @ m @ b) = lstrip (m @ b)" by (rule lstrip_spaces[OF assms(1)])
  also have "\<dots> = m @ b" using False e by (intro lstrip_id) simp
  finally have "strip (a @ m @ b) = rstrip (m @ b)" by (simp add: strip_def)
  also have "\<dots> = rstrip m" by (rule rstrip_spaces[OF assms(2)])
  also have "\<dots> = m" using e by (intro rstrip_id) simp
  finally show ?thesis .
qed

lemma strip_lstrip: "strip (lstrip g) = strip g"
proof -
  from lstrip_decomp[of g] obtain a where a: "g = a @ lstrip g" "\<forall>c\<in>set a. is_space c" by blast
  have "strip (a @ lstrip g) = rstrip (lstrip (lstrip g))"
    by (simp add: strip_def lstrip_spaces[OF a(2)])
  with a(1) show ?thesis by (simp add: strip_def)
qed

lemma strip_rstrip: "strip (rstrip g) = strip g"
proof -
  from rstrip_decomp[of g] obtain b where b: "g = rstrip g @ b" "\<forall>c\<in>set b. is_space c" by blast
  let ?r = "rstrip g"
  from lstrip_decomp[of ?r] obtain a where a: "?r = a @ lstrip ?r" "\<forall>c\<in>set a. is_space c"
    by blast
  from rstrip_decomp[of "lstrip ?r"] obtain b' where
    b': "lstrip ?r = strip ?r @ b'" "\<forall>c\<in>set b'. is_space c" by (auto simp: strip_def)
  have "g = a @ strip ?r @ (b' @ b)" using a(1) b(1) b'(1) by (metis append.assoc)
  moreover have "strip (a @ strip ?r @ (b' @ b)) = strip ?r"
    by (rule strip_unique) (use a b b' strip_ends[of ?r] in auto)
  ultimately show ?thesis by simp
qed

lemma comma_not_space: "\<not> is_space CHR '',''"
  by (simp add: is_space_def)

lemma strip_join_commas:
  assumes "segs \<noteq> []" and "\<forall>g\<in>set segs. segment g"
  shows "\<exists>segs'. strip (join_commas segs) = join_commas segs' \<and> length segs' = length segs \<and>
           (\<forall>g\<in>set segs'. segment g) \<and> map strip segs' = map strip segs"
proof (cases "tl segs = []")
  case True
  with assms(1) obtain g where g: "segs = [g]" by (cases segs) auto
  with assms(2) show ?thesis
    by (intro exI[of _ "[strip g]"]) (simp add: segment_def nested_strip strip_idem)
next
  case False
  with assms(1) obtain g0 rest where s: "segs = g0 # rest" "rest \<noteq> []" by (cases segs) auto
  then obtain mid gN where r: "rest = mid @ [gN]" by (cases rest rule: rev_cases) auto
  let ?segs' = "(lstrip g0 # mid) @ [rstrip gN]"
  have "join_commas segs = g0 @ CHR '','' # join_commas (mid @ [gN])"
    using s r by (simp add: join_commas_Cons)
  then have "lstrip (join_commas segs) = lstrip g0 @ CHR '','' # join_commas (mid @ [gN])"
    by (simp add: lstrip_append comma_not_space)
  also have "\<dots> = join_commas ((lstrip g0 # mid) @ [gN])"
    by (simp add: join_commas_Cons)
  also have "\<dots> = join_commas (lstrip g0 # mid) @ CHR '','' # gN"
    by (simp only: join_commas_snoc) simp
  finally have "strip (join_commas segs) = join_commas (lstrip g0 # mid) @ CHR '','' # rstrip gN"
    by (simp add: strip_def rstrip_append comma_not_space)
  also have "\<dots> = join_commas ?segs'"
    by (simp only: join_commas_snoc) simp
  finally have 1: "strip (join_commas segs) = join_commas ?segs'" .
  have 2: "length ?segs' = length segs" using s r by simp
  have 3: "\<forall>g\<in>set ?segs'. segment g"
    using assms(2) s r by (auto simp: segment_def nested_lstrip nested_rstrip)
  have 4: "map strip ?segs' = map strip segs"
    using s r by (simp add: strip_lstrip strip_rstrip)
  from 1 2 3 4 show ?thesis by blast
qed

lemma nested_snoc_comma: "\<not> nested st (xs @ [CHR '',''])"
proof (induction xs arbitrary: st)
  case Nil
  show ?case by (simp add: grouping_def)
next
  case (Cons x xs)
  then show ?case by (auto split: option.splits list.splits)
qed

lemma segment_hd: "segment h \<Longrightarrow> h \<noteq> [] \<Longrightarrow> hd h \<noteq> CHR '',''"
  by (cases h) (auto simp: segment_def grouping_def)

lemma segment_last: "segment h \<Longrightarrow> h \<noteq> [] \<Longrightarrow> last h \<noteq> CHR '',''"
  using nested_snoc_comma[of "[]" "butlast h"]
  by (cases h rule: rev_cases) (auto simp: segment_def)

lemma split_nodes_comma: "strip s = '','' \<Longrightarrow> split_nodes s = Inr [[], []]"
  by (subst split_nodes.simps) simp

lemma split_nodes_lead:
  assumes "strip s \<noteq> []" "strip s \<noteq> '',''" "startswith (strip s) CHR '',''"
  shows "split_nodes s =
           (case split_nodes (drop 1 (strip s)) of Inl e \<Rightarrow> Inl e | Inr nodes \<Rightarrow> Inr ([] # nodes))"
  using assms by (subst split_nodes.simps) (simp add: Let_def)

lemma split_nodes_trail:
  assumes "strip s \<noteq> []" "strip s \<noteq> '',''" "\<not> startswith (strip s) CHR '',''"
    "endswith (strip s) CHR '',''"
  shows "split_nodes s =
           (case split_nodes (butlast (strip s)) of
              Inl e \<Rightarrow> Inl e | Inr nodes \<Rightarrow> Inr (nodes @ [[]]))"
  using assms by (subst split_nodes.simps) (simp add: Let_def)

lemma split_nodes_first:
  assumes "strip s \<noteq> []" "strip s \<noteq> '',''" "\<not> startswith (strip s) CHR '',''"
    "\<not> endswith (strip s) CHR '',''" "next_node_end (strip s) = Inr b"
  shows "split_nodes s =
           (case split_nodes
                   (if startswith (lstrip (py_from (strip s) (b + 1))) CHR '',''
                    then drop 1 (lstrip (py_from (strip s) (b + 1)))
                    else lstrip (py_from (strip s) (b + 1))) of
              Inl e \<Rightarrow> Inl e
            | Inr nodes \<Rightarrow> Inr (py_upto (strip s) (b + 1) # nodes))"
  using assms by (subst split_nodes.simps) (simp add: Let_def)

lemma startswith_hd: "x \<noteq> [] \<Longrightarrow> startswith x c = (hd x = c)"
  by (cases x) (simp_all add: startswith_def)

lemma endswith_last: "x \<noteq> [] \<Longrightarrow> endswith x c = (last x = c)"
  by (cases x rule: rev_cases) (simp_all add: endswith_def)

lemma spaces_last: "y \<noteq> [] \<Longrightarrow> \<forall>c\<in>set y. is_space c \<Longrightarrow> is_space (last y) \<and> is_space (hd y)"
  by (cases y) auto

lemma split_nodes_join:
  "length segs = n \<Longrightarrow> \<forall>g\<in>set segs. segment g \<Longrightarrow> strip (join_commas segs) \<noteq> [] \<Longrightarrow>
     \<exists>xs. split_nodes (join_commas segs) = Inr xs \<and> length xs = length segs \<and>
          map strip xs = map strip segs \<and> (\<forall>x\<in>set xs. x = [] \<or> \<not> is_space (hd x))"
proof (induction n arbitrary: segs)
  case 0
  then show ?case by (simp add: strip_Nil)
next
  case (Suc n)
  let ?s = "join_commas segs"
  from Suc.prems(1) have sne: "segs \<noteq> []" by auto
  from strip_join_commas[OF sne Suc.prems(2)] obtain segs' where
    x: "strip ?s = join_commas segs'" and len: "length segs' = length segs"
    and seg: "\<forall>g\<in>set segs'. segment g" and ms: "map strip segs' = map strip segs"
    by blast
  define x where "x = join_commas segs'"
  have sx: "strip ?s = x" by (simp add: x x_def)
  from Suc.prems(3) sx have xne: "x \<noteq> []" by simp
  from strip_ends[of ?s] Suc.prems(3) sx
  have ends: "\<not> is_space (hd x)" "\<not> is_space (last x)" by simp_all
  from len Suc.prems(1) obtain h t where ht: "segs' = h # t" and lt: "length t = n"
    by (cases segs') auto
  have xht: "x = (if t = [] then h else h @ CHR '','' # join_commas t)"
    by (simp add: x_def ht join_commas_Cons)
  show ?case
  proof (cases "x = '',''")
    case True
    with sx have r: "split_nodes ?s = Inr [[], []]" by (simp add: split_nodes_comma)
    have "t \<noteq> []"
    proof
      assume "t = []"
      with xht True seg ht have "segment '',''" by simp
      then show False by (simp add: segment_def grouping_def)
    qed
    with xht True have "h = []" "join_commas t = []"
      by (simp_all add: Cons_eq_append_conv)
    with join_commas_empty[of t] \<open>t \<noteq> []\<close> have "segs' = [[], []]" by (simp add: ht)
    with r len ms show ?thesis by (intro exI[of _ "[[], []]"]) auto
  next
    case nc: False
    show ?thesis
    proof (cases "startswith x CHR '',''")
      case True
      have h: "h = []"
      proof (rule ccontr)
        assume "h \<noteq> []"
        with xht have "hd x = hd h" by simp
        with segment_hd[of h] seg ht \<open>h \<noteq> []\<close> True xne show False
          by (simp add: startswith_hd)
      qed
      with xht xne have tne: "t \<noteq> []" and xt: "x = CHR '','' # join_commas t"
        by (auto split: if_splits)
      from xt nc have jne: "join_commas t \<noteq> []" by auto
      have st: "strip (join_commas t) \<noteq> []"
      proof
        assume "strip (join_commas t) = []"
        then have "\<forall>c\<in>set (join_commas t). is_space c" by (simp add: strip_empty_iff)
        from spaces_last[OF jne this] xt jne ends show False by simp
      qed
      from Suc.IH[OF lt _ st] seg ht obtain ys where
        ys: "split_nodes (join_commas t) = Inr ys" "length ys = length t"
        "map strip ys = map strip t" "\<forall>x\<in>set ys. x = [] \<or> \<not> is_space (hd x)"
        by auto
      have "split_nodes ?s = Inr ([] # ys)"
        using split_nodes_lead[of ?s] sx xne nc True xt ys(1) by simp
      with ys len ms ht h show ?thesis
        by (intro exI[of _ "[] # ys"]) (auto simp: strip_Nil)
    next
      case nsw: False
      show ?thesis
      proof (cases "endswith x CHR '',''")
        case True
        from ht have "segs' \<noteq> []" by simp
        then obtain bl l where bl: "segs' = bl @ [l]" by (cases segs' rule: rev_cases) auto
        have xbl: "x = (if bl = [] then l else join_commas bl @ CHR '','' # l)"
          by (simp only: x_def bl join_commas_snoc)
        have l: "l = []"
        proof (rule ccontr)
          assume "l \<noteq> []"
          with xbl have "last x = last l" by simp
          with segment_last[of l] seg bl \<open>l \<noteq> []\<close> True xne show False
            by (simp add: endswith_last)
        qed
        with xbl xne have blne: "bl \<noteq> []" and xb: "x = join_commas bl @ [CHR '','']"
          by (auto split: if_splits)
        from xb nc have jne: "join_commas bl \<noteq> []" by auto
        have st: "strip (join_commas bl) \<noteq> []"
        proof
          assume "strip (join_commas bl) = []"
          then have "\<forall>c\<in>set (join_commas bl). is_space c" by (simp add: strip_empty_iff)
          from spaces_last[OF jne this] xb jne ends show False by simp
        qed
        from bl len Suc.prems(1) have lb: "length bl = n" by simp
        from Suc.IH[OF lb _ st] seg bl obtain ys where
          ys: "split_nodes (join_commas bl) = Inr ys" "length ys = length bl"
          "map strip ys = map strip bl" "\<forall>x\<in>set ys. x = [] \<or> \<not> is_space (hd x)"
          by auto
        have "split_nodes ?s = Inr (ys @ [[]])"
          using split_nodes_trail[of ?s] sx xne nc nsw True xb ys(1) by simp
        with ys len ms bl l show ?thesis
          by (intro exI[of _ "ys @ [[]]"]) (auto simp: strip_Nil)
      next
        case new: False
        have hne: "h \<noteq> []"
        proof
          assume "h = []"
          with xht xne have "x = CHR '','' # join_commas t" by (auto split: if_splits)
          with nsw show False by (simp add: startswith_def)
        qed
        define rest where "rest = (if t = [] then [] else CHR '','' # join_commas t)"
        have xr: "x = h @ rest" by (simp add: xht rest_def)
        have r: "rest = [] \<or> hd rest = CHR '',''" by (simp add: rest_def)
        have sxx: "strip x = x" using sx strip_idem[of ?s] by simp
        from seg ht have nh: "nested [] h" by (simp add: segment_def)
        have nne: "next_node_end x = Inr (int (length h) - 1)"
          unfolding xr by (rule next_node_end_segment[OF nh hne r]) (use sxx xr in simp)
        have up: "py_upto x (int (length h) - 1 + 1) = h"
          by (simp add: py_upto_def xr)
        have fr: "py_from x (int (length h) - 1 + 1) = rest"
          by (simp add: py_from_def xr)
        have lr: "lstrip rest = rest"
          using r by (intro lstrip_id) (auto simp: comma_not_space)
        have hx: "\<not> is_space (hd h)" using ends(1) xr hne by simp
        show ?thesis
        proof (cases "t = []")
          case True
          then have "rest = []" by (simp add: rest_def)
          with split_nodes_first[of ?s, OF _ _ _ _ nne[folded sx]] sx xne nc nsw new up fr lr
          have "split_nodes ?s = Inr [h]"
            by (simp add: startswith_def split_nodes_empty strip_Nil)
          with True ht len ms hne hx show ?thesis
            by (intro exI[of _ "[h]"]) auto
        next
          case tne: False
          then have re: "rest = CHR '','' # join_commas t" by (simp add: rest_def)
          have st: "strip (join_commas t) \<noteq> []"
          proof
            assume "strip (join_commas t) = []"
            then have sp: "\<forall>c\<in>set (join_commas t). is_space c" by (simp add: strip_empty_iff)
            show False
            proof (cases "join_commas t = []")
              case True
              with xr re new show False by (simp add: endswith_def)
            next
              case False
              from spaces_last[OF False sp] xr re False ends show False by simp
            qed
          qed
          from Suc.IH[OF lt _ st] seg ht obtain ys where
            ys: "split_nodes (join_commas t) = Inr ys" "length ys = length t"
            "map strip ys = map strip t" "\<forall>x\<in>set ys. x = [] \<or> \<not> is_space (hd x)"
            by auto
          from split_nodes_first[of ?s, OF _ _ _ _ nne[folded sx]] sx xne nc nsw new up fr lr re ys(1)
          have "split_nodes ?s = Inr (h # ys)"
            by (simp add: startswith_def)
          with ys ht len ms hne hx show ?thesis
            by (intro exI[of _ "h # ys"]) auto
        qed
      qed
    qed
  qed
qed

lemma split_nodes_join_blank:
  assumes "\<forall>g\<in>set segs. segment g" and "strip (join_commas segs) \<noteq> []"
  shows "\<exists>xs. split_nodes (join_commas segs) = Inr xs \<and> length xs = length segs \<and>
          map strip xs = map strip segs \<and>
          (\<forall>i<length segs. strip (segs ! i) = [] \<longrightarrow> xs ! i = [])"
proof -
  from split_nodes_join[OF refl assms] obtain xs where
    xs: "split_nodes (join_commas segs) = Inr xs" "length xs = length segs"
    "map strip xs = map strip segs" "\<forall>x\<in>set xs. x = [] \<or> \<not> is_space (hd x)"
    by blast
  have "xs ! i = []" if i: "i < length segs" and b: "strip (segs ! i) = []" for i
  proof (rule ccontr)
    assume ne: "xs ! i \<noteq> []"
    from xs(2,3) i have "strip (xs ! i) = strip (segs ! i)"
      by (metis length_map nth_map)
    with b have "strip (xs ! i) = []" by simp
    then have "\<forall>c\<in>set (xs ! i). is_space c" by (simp only: strip_empty_iff)
    with ne have "is_space (hd (xs ! i))" by (cases "xs ! i") auto
    moreover from xs(2,4) i ne have "\<not> is_space (hd (xs ! i))" by (metis nth_mem)
    ultimately show False by simp
  qed
  with xs show ?thesis by blast
qed



section \<open>The node tree of a text\<close>

lemma text_tree_unfold:
  assumes "parts_of_subtree (strip s) = Inr (cs, l, d, c)" and "split_nodes cs = Inr strs"
  shows "text_tree s =
           (case all_results (map text_tree strs) of
              Inl e \<Rightarrow> Inl e | Inr ch \<Rightarrow> Inr (Node l ch d c))"
  by (subst text_tree.simps) (simp add: assms)

lemma text_tree_strip: "strip x = strip y \<Longrightarrow> text_tree x = text_tree y"
  using text_tree.simps[of x] text_tree.simps[of y] by simp

lemma all_results_nth:
  "all_results rs = Inr xs \<Longrightarrow>
     length xs = length rs \<and> (\<forall>i<length rs. rs ! i = Inr (xs ! i))"
proof (induction rs arbitrary: xs rule: all_results.induct)
  case 1
  then show ?case by simp
next
  case (2 e rs)
  then show ?case by simp
next
  case (3 x rs)
  from "3.prems" obtain ys where ys: "all_results rs = Inr ys" "xs = x # ys"
    by (auto split: sum.splits)
  from "3.IH"[OF ys(1)] ys(2) show ?case
    by (auto simp: nth_Cons split: nat.splits)
qed


lemma map_calls_text_tree:
  assumes "\<And>x st t st' log0. x \<in> set xs \<Longrightarrow> f x st = (Inr t, st') \<Longrightarrow>
             \<exists>tree. text_tree x = Inr tree \<and> h x (st, log0) = (Inr t, (st', log0 @ postorder tree))"
    and "map_calls f xs st = (Inr ts, st')"
  shows "\<exists>trees. all_results (map text_tree xs) = Inr trees \<and> length trees = length ts \<and>
           map_calls h xs (st, log0) = (Inr ts, (st', log0 @ concat (map postorder trees)))"
  using assms
proof (induction xs arbitrary: st ts log0)
  case Nil
  then show ?case by simp
next
  case (Cons x xs)
  from Cons.prems(2) obtain t st1 ts1 where
    fx: "f x st = (Inr t, st1)" and rest: "map_calls f xs st1 = (Inr ts1, st')" and ts: "ts = t # ts1"
    by (auto split: prod.splits sum.splits)
  from Cons.prems(1)[OF _ fx, of log0] obtain tree where
    gx: "text_tree x = Inr tree" and hx: "h x (st, log0) = (Inr t, (st1, log0 @ postorder tree))"
    by auto
  have "\<exists>trees. all_results (map text_tree xs) = Inr trees \<and> length trees = length ts1 \<and>
           map_calls h xs (st1, log0 @ postorder tree) =
             (Inr ts1, (st', (log0 @ postorder tree) @ concat (map postorder trees)))"
    by (rule Cons.IH[OF _ rest]) (rule Cons.prems(1), simp_all)
  then obtain trees where "all_results (map text_tree xs) = Inr trees" "length trees = length ts1"
    "map_calls h xs (st1, log0 @ postorder tree) =
             (Inr ts1, (st', (log0 @ postorder tree) @ concat (map postorder trees)))"
    by blast
  with gx hx ts show ?case
    by (intro exI[of _ "tree # trees"]) simp
qed

lemma postorder_text_log:
  "parse_newick_subtree s agg dp fp st = (Inr t, st') \<Longrightarrow>
     \<exists>tree. text_tree s = Inr tree \<and>
            parse_newick_subtree s (logged_aggregator agg) (unlogged dp) (unlogged fp) (st, log0)
               = (Inr t, (st', log0 @ postorder tree))"
proof (induction s agg dp fp st arbitrary: t st' log0 rule: parse_newick_subtree.induct)
  case (1 s agg dp fp st)
  from "1.prems" obtain cs l d c where p: "parts_of_subtree (strip s) = Inr (cs, l, d, c)"
    by (subst (asm) parse_newick_subtree_unfold) (auto split: sum.splits)
  from "1.prems" p obtain strs where sp: "split_nodes cs = Inr strs"
    by (subst (asm) parse_newick_subtree_unfold) (auto split: sum.splits)
  from "1.prems" p sp obtain ch st1 where
    mc: "map_calls (\<lambda>x. parse_newick_subtree x agg dp fp) strs st = (Inr ch, st1)"
    and bn: "build_node agg dp fp l ch d c st1 = (Inr t, st')"
    by (subst (asm) parse_newick_subtree_unfold) (auto split: sum.splits prod.splits)
  have ih: "\<exists>tree. text_tree x = Inr tree \<and>
            parse_newick_subtree x (logged_aggregator agg) (unlogged dp) (unlogged fp) (sa, lg)
               = (Inr ta, (sa', lg @ postorder tree))"
    if "x \<in> set strs" "parse_newick_subtree x agg dp fp sa = (Inr ta, sa')" for x sa ta sa' lg
    by (rule "1.IH"[OF p refl refl refl sp that])
  from map_calls_text_tree[where f = "\<lambda>x. parse_newick_subtree x agg dp fp"
      and h = "\<lambda>x. parse_newick_subtree x (logged_aggregator agg) (unlogged dp) (unlogged fp)",
      OF ih mc, of log0]
  obtain trees where
    g: "all_results (map text_tree strs) = Inr trees"
    and len: "length trees = length ch"
    and h: "map_calls (\<lambda>x. parse_newick_subtree x (logged_aggregator agg) (unlogged dp) (unlogged fp))
          strs (st, log0) = (Inr ch, (st1, log0 @ concat (map postorder trees)))"
    by blast
  from bn obtain fv st2 dv st3 where c: "fp c st1 = (Inr fv, st2)" "dp d st2 = (Inr dv, st3)"
    "agg l ch dv fv st3 = (Inr t, st')"
    by (rule build_node_Inr)
  have n: "text_tree s = Inr (Node l trees d c)"
    by (simp add: text_tree_unfold[OF p sp] g)
  have "parse_newick_subtree s (logged_aggregator agg) (unlogged dp) (unlogged fp) (st, log0)
          = (Inr t, (st', log0 @ concat (map postorder trees) @ [(l, length ch)]))"
    by (simp add: parse_node[OF p sp h] build_node_def logged_aggregator_def unlogged_def c)
  with n len show ?case by simp
qed

lemma nested_balanced:
  assumes "pair = paren \<or> pair = bracket"
  shows "nested st g \<Longrightarrow>
           balanced_from (fst pair) (snd pair) g (count_list st (snd pair))"
proof (induction g arbitrary: st)
  case Nil
  then show ?case by simp
next
  case (Cons x g)
  show ?case
  proof (cases "grouping x")
    case (Some p)
    with Cons.prems have n: "nested (snd p # st) g" by simp
    from Some have p: "(x = CHR ''('' \<and> p = paren) \<or> (x = CHR ''['' \<and> p = bracket)"
      by (auto simp: grouping_def split: if_splits)
    from Cons.IH[OF n] p assms show ?thesis
      by (auto simp: paren_def bracket_def)
  next
    case None
    then have ng: "x \<noteq> CHR ''(''" "x \<noteq> CHR ''[''"
      by (auto simp: grouping_def split: if_splits)
    show ?thesis
    proof (cases "x = CHR '')'' \<or> x = CHR '']''")
      case True
      with Cons.prems None obtain st' where st: "st = x # st'" and n: "nested st' g"
        by (cases st) auto
      from Cons.IH[OF n] st True assms ng show ?thesis
        by (auto simp: paren_def bracket_def)
    next
      case False
      with Cons.prems None have n: "nested st g" by (auto split: if_splits)
      from Cons.IH[OF n] False ng assms show ?thesis
        by (auto simp: paren_def bracket_def)
    qed
  qed
qed

lemma balanced_append:
  "balanced_from opn cls xs e \<Longrightarrow>
     balanced_from opn cls (xs @ ys) (e + d) = balanced_from opn cls ys d"
proof (induction xs arbitrary: e)
  case Nil
  then show ?case by simp
next
  case (Cons x xs)
  show ?case
  proof (cases "x = cls")
    case True
    with Cons.prems have e: "0 < e" and b: "balanced_from opn cls xs (e - 1)" by simp_all
    from e have "e + d - 1 = (e - 1) + d" by simp
    with Cons.IH[OF b] True e show ?thesis by simp
  next
    case False
    with Cons.prems Cons.IH[of "Suc e"] Cons.IH[of e] show ?thesis
      by (auto split: if_splits)
  qed
qed

lemma balanced_join_commas:
  "\<forall>g\<in>set segs. segment g \<Longrightarrow>
     balanced_from CHR ''('' CHR '')'' (join_commas segs) 0"
proof (induction segs rule: join_commas.induct)
  case 1
  show ?case by simp
next
  case (2 g)
  then have "nested [] g" by (simp add: segment_def)
  from nested_balanced[of paren "[]" g, OF _ this] show ?case by (simp add: paren_def)
next
  case (3 g g' gs)
  then have "nested [] g" by (simp add: segment_def)
  from nested_balanced[of paren "[]" g, OF _ this]
  have b: "balanced_from CHR ''('' CHR '')'' g 0" by (simp add: paren_def)
  from 3 have "balanced_from CHR ''('' CHR '')'' (join_commas (g' # gs)) 0" by simp
  then have "balanced_from CHR ''('' CHR '')'' (CHR '','' # join_commas (g' # gs)) 0" by simp
  with balanced_append[OF b, of "CHR '','' # join_commas (g' # gs)" 0] show ?case by simp
qed

lemma parts_of_paren:
  assumes x: "x = CHR ''('' # join_commas segs @ CHR '')'' # tail"
    and seg: "\<forall>g\<in>set segs. segment g"
  shows "\<exists>l d c. parts_of_subtree x = Inr (join_commas segs, l, d, c) \<and> rest_fields tail l d c"
proof -
  let ?J = "join_commas segs"
  let ?k = "Suc (length ?J)"
  have sl: "slice x 1 ?k = ?J" by (simp add: x slice_def)
  have "x ! ?k = CHR '')''" by (simp add: x nth_append)
  with sl balanced_join_commas[OF seg] have "closes paren x 1 ?k"
    by (simp add: closes_def paren_def x)
  then have fc: "find_closing_parenthesis x = Inr ?k"
    using find_closing_closes[of "CHR ''(''" "CHR '')''" x 1 ?k]
    by (simp add: find_closing_parenthesis_def paren_def)
  have sw: "startswith x CHR ''(''" by (simp add: x startswith_def)
  have dr: "drop (?k + 1) x = tail" by (simp add: x)
  from parts_of_subtree_rest[of x ?J tail] sw fc sl dr show ?thesis by simp
qed

lemma text_tree_children:
  assumes s: "strip s = CHR ''('' # join_commas segs @ CHR '')'' # tail"
    and seg: "\<forall>g\<in>set segs. segment g"
    and t: "text_tree s = Inr (Node l ch d c)"
  shows "rest_fields tail l d c \<and>
         (strip (join_commas segs) = [] \<longrightarrow> ch = []) \<and>
         (strip (join_commas segs) \<noteq> [] \<longrightarrow>
            length ch = length segs \<and> (\<forall>i<length segs. text_tree (segs ! i) = Inr (ch ! i)))"
proof -
  from parts_of_paren[OF s seg] obtain l' d' c' where
    p: "parts_of_subtree (strip s) = Inr (join_commas segs, l', d', c')"
    and rf: "rest_fields tail l' d' c'" by blast
  show ?thesis
  proof (cases "strip (join_commas segs) = []")
    case True
    then have "split_nodes (join_commas segs) = Inr []" by (rule split_nodes_empty)
    from text_tree_unfold[OF p this] t rf True show ?thesis by simp
  next
    case False
    from split_nodes_join[OF refl seg False] obtain xs where
      xs: "split_nodes (join_commas segs) = Inr xs" "length xs = length segs"
      "map strip xs = map strip segs" by blast
    from text_tree_unfold[OF p xs(1)] t have
      ar: "all_results (map text_tree xs) = Inr ch" and e: "l = l'" "d = d'" "c = c'"
      by (auto split: sum.splits)
    from all_results_nth[OF ar] xs(2) have len: "length ch = length segs"
      and n: "\<forall>i<length segs. text_tree (xs ! i) = Inr (ch ! i)" by auto
    have "text_tree (segs ! i) = Inr (ch ! i)" if i: "i < length segs" for i
    proof -
      from xs(2,3) i have "strip (xs ! i) = strip (segs ! i)" by (metis length_map nth_map)
      from text_tree_strip[OF this] n i show ?thesis by simp
    qed
    with len rf e False show ?thesis by simp
  qed
qed

lemma text_tree_leaf:
  assumes "\<not> startswith (strip s) CHR ''(''" and "text_tree s = Inr tree"
  shows "\<exists>l d c. tree = Node l [] d c \<and> rest_fields (strip s) l d c"
proof -
  from parts_of_subtree_rest[of "strip s" "[]" "strip s"] assms(1) obtain l d c where
    p: "parts_of_subtree (strip s) = Inr ([], l, d, c)" and rf: "rest_fields (strip s) l d c"
    by auto
  have "split_nodes [] = Inr []" by (rule split_nodes_empty) (rule strip_Nil)
  from text_tree_unfold[OF p this] assms(2) rf show ?thesis by simp
qed


section \<open>The claims of the specification\<close>

text \<open>
  \<^bold>\<open>C1.\<close> Let \<open>opn\<close> and \<open>cls\<close> be two distinct delimiters (the parentheses, or the
  brackets). If the delimiters of \<open>s\<close> are properly balanced and \<open>start\<close> is just past an
  opening delimiter, then \<open>_find_closing\<close> returns an index \<open>k\<close>: \<open>k\<close> holds a closing
  delimiter, the text between \<open>start\<close> and \<open>k\<close> is balanced (the closer at \<open>k\<close> is the one that
  balances the opener before \<open>start\<close>, nested pairs being skipped), and no other index has
  these properties. The instance below is the documented example: on \<open>((),())()\<close> from
  offset 1 the result is 6.
\<close>

theorem find_closing_balances:
  assumes "opn \<noteq> cls"
    and "balanced_from opn cls s 0"
    and "0 < start" and "start \<le> length s" and "s ! (start - 1) = opn"
  shows "\<exists>k. find_closing s start (opn, cls) = Inr k \<and> closes (opn, cls) s start k \<and>
             (\<forall>k'. closes (opn, cls) s start k' \<longrightarrow> k' = k)"
proof -
  from assms(3,4) have i: "start - 1 < length s" "Suc (start - 1) = start" by simp_all
  from balanced_suffix[OF assms(2) i(1) assms(5) assms(1)] i(2)
  obtain e where "balanced_from opn cls (drop start s) (Suc e)" by auto
  from balanced_scan_close[OF this, of 0]
  obtain j where j: "scan_close opn cls (drop start s) 0 = Some j" by auto
  then have "find_closing s start (opn, cls) = Inr (start + j)"
    by (simp add: find_closing_scan[OF assms(1)])
  moreover from j have "closes (opn, cls) s start (start + j)"
    by (simp add: closes_scan[OF assms(1)])
  moreover have "k' = start + j" if "closes (opn, cls) s start k'" for k'
    using that j by (auto simp: closes_scan[OF assms(1)])
  ultimately show ?thesis by blast
qed

theorem find_closing_balances_witness:
  "balanced_from CHR ''('' CHR '')'' ''((),())()'' 0 \<and>
   ''((),())()'' ! (1 - 1) = CHR ''('' \<and>
   closes paren ''((),())()'' 1 6 \<and>
   find_closing ''((),())()'' 1 paren = Inr 6"
proof -
  have b: "balanced_from CHR ''('' CHR '')'' ''((),())()'' 0" by simp
  have c: "closes (CHR ''('', CHR '')'') ''((),())()'' 1 6"
    by (simp add: closes_def slice_def)
  from find_closing_balances[of "CHR ''(''" "CHR '')''" "''((),())()''" 1, OF _ b]
  obtain k where "find_closing ''((),())()'' 1 (CHR ''('', CHR '')'') = Inr k"
    and "\<forall>k'. closes (CHR ''('', CHR '')'') ''((),())()'' 1 k' \<longrightarrow> k' = k"
    by auto
  with c have "find_closing ''((),())()'' 1 (CHR ''('', CHR '')'') = Inr 6" by auto
  with b c show ?thesis by (simp add: paren_def)
qed

text \<open>
  \<^bold>\<open>C2, as stated, fails.\<close> The claim promises \<open>N + 1\<close> entries for every non-empty fragment with
  \<open>N\<close> top-level commas. A fragment of two blanks is not empty and has no comma, yet
  \<open>_split_nodes\<close> trims it first and returns no entry at all. A fragment with an unclosed
  parenthesis and no comma returns no list: the scanner raises.
\<close>

theorem split_nodes_blank_counterexample:
  "''  '' \<noteq> [] \<and> CHR '','' \<notin> set ''  '' \<and> split_nodes ''  '' = Inr [] \<and>
   length ([] :: string list) \<noteq> 0 + 1 \<and>
   ''(a'' \<noteq> [] \<and> CHR '','' \<notin> set ''(a'' \<and> split_nodes ''(a'' = Inl SubstringNotFound"
proof -
  have "split_nodes ''  '' = Inr []" by code_simp
  moreover have "split_nodes ''(a'' = Inl SubstringNotFound" by code_simp
  ultimately show ?thesis by simp
qed

text \<open>
  \<^bold>\<open>C2, amended.\<close> Let the fragment be the comma-join of the segments \<open>segs\<close>, each with properly
  nested parentheses and brackets and no comma outside them (so the fragment has exactly
  \<open>length segs - 1\<close> top-level commas), and let it be non-empty after trimming. Then
  \<open>_split_nodes\<close> returns exactly \<open>length segs\<close> entries, in order: each entry is its segment up
  to surrounding whitespace, and the entry of an empty or blank segment is the empty string.
\<close>

theorem split_nodes_top_level:
  assumes "\<forall>g\<in>set segs. segment g" and "strip (join_commas segs) \<noteq> []"
  shows "\<exists>xs. split_nodes (join_commas segs) = Inr xs \<and> length xs = length segs \<and>
          map strip xs = map strip segs \<and>
          (\<forall>i<length segs. strip (segs ! i) = [] \<longrightarrow> xs ! i = [])"
  using assms by (rule split_nodes_join_blank)

theorem split_nodes_top_level_witness:
  "segment ''(a,b)'' \<and> segment '' '' \<and> segment '' :12'' \<and> segment '' c[xxx]'' \<and>
   join_commas [''(a,b)'', '' '', '' :12'', '' c[xxx]''] = ''(a,b), , :12, c[xxx]'' \<and>
   strip ''(a,b), , :12, c[xxx]'' \<noteq> [] \<and>
   split_nodes ''(a,b), , :12, c[xxx]'' = Inr [''(a,b)'', [], '':12'', ''c[xxx]''] \<and>
   (\<exists>xs. split_nodes ''(a,b), , :12, c[xxx]'' = Inr xs \<and> length xs = 4 \<and> xs ! 1 = [])"
proof -
  have s: "segment ''(a,b)''" "segment '' ''" "segment '' :12''" "segment '' c[xxx]''"
    by (simp_all add: segment_def grouping_def paren_def bracket_def)
  have j: "join_commas [''(a,b)'', '' '', '' :12'', '' c[xxx]''] = ''(a,b), , :12, c[xxx]''"
    by simp
  have n: "strip ''(a,b), , :12, c[xxx]'' \<noteq> []" by code_simp
  have b: "strip '' '' = []" by code_simp
  have v: "split_nodes ''(a,b), , :12, c[xxx]'' = Inr [''(a,b)'', [], '':12'', ''c[xxx]'']"
    by code_simp
  let ?segs = "[''(a,b)'', '' '', '' :12'', '' c[xxx]'']"
  have h1: "\<forall>g\<in>set ?segs. segment g" using s by simp
  have h2: "strip (join_commas ?segs) \<noteq> []" using n by simp
  from split_nodes_top_level[OF h1 h2] obtain xs where
    xs: "split_nodes (join_commas ?segs) = Inr xs" "length xs = length ?segs"
    "\<forall>i<length ?segs. strip (?segs ! i) = [] \<longrightarrow> xs ! i = []"
    by blast
  from xs(3)[rule_format, of 1] b have "xs ! 1 = []" by simp
  with xs(1,2) have "\<exists>xs. split_nodes ''(a,b), , :12, c[xxx]'' = Inr xs \<and> length xs = 4 \<and> xs ! 1 = []"
    by (intro exI[of _ xs]) simp
  with s j n v show ?thesis by blast
qed

text \<open>
  \<^bold>\<open>C3.\<close> If the text does not end with \<open>;\<close>, \<open>parse_newick\<close> raises the format error and the
  state of the callbacks is the initial one, whatever the three callbacks are: none of them
  has run. On a text \<open>r\<close> followed by \<open>;\<close> it is \<open>parse_newick_subtree\<close> on exactly \<open>r\<close>,
  with the same callbacks.
\<close>

theorem parse_newick_terminator:
  "((\<forall>r. s \<noteq> r @ '';'') \<longrightarrow> parse_newick s agg dp fp st = (Inl FormatError, st)) \<and>
   parse_newick (r @ '';'') agg dp fp st = parse_newick_subtree r agg dp fp st"
proof -
  have "endswith s CHR '';'' \<longleftrightarrow> (\<exists>r. s = r @ '';'')"
    by (cases s rule: rev_cases) (auto simp: endswith_def)
  then show ?thesis by (auto simp: parse_newick_def endswith_def)
qed

theorem parse_newick_terminator_witness:
  "(\<forall>r. ''(A,B)'' \<noteq> r @ '';'') \<and>
   parse_newick ''(A,B)'' (pure_aggregator tree_as_dict)
       (pure_call (simple_distance (\<lambda>s. Inl FloatError :: error + int)))
       (pure_call (\<lambda>s. Inr (simple_feature s))) (0 :: nat) = (Inl FormatError, 0)"
proof -
  have n: "\<forall>r. ''(A,B)'' \<noteq> r @ '';''"
  proof (intro allI notI)
    fix r assume "''(A,B)'' = r @ '';''"
    then have "last ''(A,B)'' = last (r @ '';'')" by simp
    then show False by simp
  qed
  with parse_newick_terminator[of "''(A,B)''" "pure_aggregator tree_as_dict"
      "pure_call (simple_distance (\<lambda>s. Inl FloatError :: error + int))"
      "pure_call (\<lambda>s. Inr (simple_feature s))" "0 :: nat"]
  show ?thesis by blast
qed

text \<open>
  \<^bold>\<open>C4.\<close> For every string \<open>s\<close>. If \<open>s\<close> starts with \<open>(\<close> and \<open>k\<close> is the index of the closer that
  balances it, the children block is the text strictly between the two and the remainder
  is the text after the closer; if no closer balances it, \<open>_parts_of_subtree\<close> raises. If
  \<open>s\<close> does not start with \<open>(\<close>, the children block is empty and the remainder is \<open>s\<close>. In
  both cases the other three fields are read off the remainder as \<open>rest_fields\<close> says: split
  at the first \<open>[\<close>, the comment being the tail without its last character; the head split at
  its first \<open>:\<close>; the label trimmed, the distance text and the comment left as they are.
\<close>

theorem parts_of_subtree_fields:
  "(startswith s CHR ''('' \<longrightarrow>
      (\<forall>k. closes paren s 1 k \<longrightarrow>
         (\<exists>cb rest label dist comment.
            s = CHR ''('' # cb @ CHR '')'' # rest \<and> length cb = k - 1 \<and>
            parts_of_subtree s = Inr (cb, label, dist, comment) \<and>
            rest_fields rest label dist comment)) \<and>
      ((\<forall>k. \<not> closes paren s 1 k) \<longrightarrow> parts_of_subtree s = Inl SubstringNotFound)) \<and>
   (\<not> startswith s CHR ''('' \<longrightarrow>
      (\<exists>label dist comment.
         parts_of_subtree s = Inr ([], label, dist, comment) \<and>
         rest_fields s label dist comment))"
proof (intro conjI impI allI)
  fix k
  assume sw: "startswith s CHR ''(''" and cl: "closes paren s 1 k"
  then have fc: "find_closing_parenthesis s = Inr k"
    using find_closing_closes[of "CHR ''(''" "CHR '')''" s 1 k]
    by (simp add: find_closing_parenthesis_def paren_def)
  from parts_of_subtree_rest[of s "slice s 1 k" "drop (k + 1) s"] sw fc
  obtain label dist comment where
    "parts_of_subtree s = Inr (slice s 1 k, label, dist, comment)"
    "rest_fields (drop (k + 1) s) label dist comment"
    by auto
  with closes_paren_decompose[OF cl sw]
  show "\<exists>cb rest label dist comment.
            s = CHR ''('' # cb @ CHR '')'' # rest \<and> length cb = k - 1 \<and>
            parts_of_subtree s = Inr (cb, label, dist, comment) \<and>
            rest_fields rest label dist comment"
    by blast
next
  assume sw: "startswith s CHR ''(''" and no: "\<forall>k. \<not> closes paren s 1 k"
  then have "find_closing_parenthesis s = Inl SubstringNotFound"
    using find_closing_fails[of "CHR ''(''" "CHR '')''" s 1]
    by (simp add: find_closing_parenthesis_def paren_def)
  with sw show "parts_of_subtree s = Inl SubstringNotFound"
    by (simp add: parts_of_subtree_def)
next
  assume "\<not> startswith s CHR ''(''"
  with parts_of_subtree_rest[of s "[]" s]
  show "\<exists>label dist comment.
         parts_of_subtree s = Inr ([], label, dist, comment) \<and>
         rest_fields s label dist comment"
    by simp
qed

theorem parts_of_subtree_fields_witness:
  "startswith ''(A,B)root:10.0[x=xx]'' CHR ''('' \<and>
   closes paren ''(A,B)root:10.0[x=xx]'' 1 4 \<and>
   parts_of_subtree ''(A,B)root:10.0[x=xx]'' = Inr (''A,B'', ''root'', ''10.0'', ''x=xx'') \<and>
   (\<exists>cb rest label dist comment.
      ''(A,B)root:10.0[x=xx]'' = CHR ''('' # cb @ CHR '')'' # rest \<and> length cb = 4 - 1 \<and>
      parts_of_subtree ''(A,B)root:10.0[x=xx]'' = Inr (cb, label, dist, comment) \<and>
      rest_fields rest label dist comment)"
proof -
  have a: "startswith ''(A,B)root:10.0[x=xx]'' CHR ''(''" by code_simp
  have b: "closes paren ''(A,B)root:10.0[x=xx]'' 1 4"
    by (simp add: closes_def paren_def slice_def)
  have c: "parts_of_subtree ''(A,B)root:10.0[x=xx]'' = Inr (''A,B'', ''root'', ''10.0'', ''x=xx'')"
    by code_simp
  from parts_of_subtree_fields[of "''(A,B)root:10.0[x=xx]''"] a b c show ?thesis by blast
qed

text \<open>
  \<^bold>\<open>C5.\<close> Whenever parsing succeeds, running the same parse with an aggregator that also logs
  each of its calls (\<open>logged_aggregator\<close>) gives the same value and the same final state, and
  the log is the post-order traversal of the node tree of the text: one entry per node, the
  entries of a node's descendants before its own, the children from left to right. The
  node tree is tied to the text: a text without leading parenthesis is a node without
  children, and for a text \<open>(g\<^sub>1,...,g\<^sub>n)tail\<close> with properly nested segments the fields are
  read off \<open>tail\<close>, a blank children block gives no child, and otherwise there are exactly
  \<open>n\<close> children, the \<open>i\<close>-th being the node tree of the \<open>i\<close>-th segment.
\<close>

theorem aggregator_postorder:
  "(parse_newick_subtree s agg dp fp st = (Inr t, st') \<longrightarrow>
      (\<exists>tree. text_tree s = Inr tree \<and>
         parse_newick_subtree s (logged_aggregator agg) (unlogged dp) (unlogged fp) (st, [])
           = (Inr t, (st', postorder tree)))) \<and>
   (\<not> startswith (strip s) CHR ''('' \<and> text_tree s = Inr tree \<longrightarrow>
      (\<exists>l d c. tree = Node l [] d c \<and> rest_fields (strip s) l d c)) \<and>
   (strip s = CHR ''('' # join_commas segs @ CHR '')'' # tail \<and> (\<forall>g\<in>set segs. segment g) \<and>
    text_tree s = Inr (Node l ch d c) \<longrightarrow>
      rest_fields tail l d c \<and>
      (strip (join_commas segs) = [] \<longrightarrow> ch = []) \<and>
      (strip (join_commas segs) \<noteq> [] \<longrightarrow>
         length ch = length segs \<and> (\<forall>i<length segs. text_tree (segs ! i) = Inr (ch ! i))))"
proof -
  have 1: "parse_newick_subtree s agg dp fp st = (Inr t, st') \<longrightarrow>
      (\<exists>tree. text_tree s = Inr tree \<and>
         parse_newick_subtree s (logged_aggregator agg) (unlogged dp) (unlogged fp) (st, [])
           = (Inr t, (st', postorder tree)))"
    using postorder_text_log[of s agg dp fp st t st' "[]"] by simp
  have 2: "\<not> startswith (strip s) CHR ''('' \<and> text_tree s = Inr tree \<longrightarrow>
      (\<exists>l d c. tree = Node l [] d c \<and> rest_fields (strip s) l d c)"
    using text_tree_leaf[of s tree] by simp
  have 3: "strip s = CHR ''('' # join_commas segs @ CHR '')'' # tail \<and> (\<forall>g\<in>set segs. segment g) \<and>
    text_tree s = Inr (Node l ch d c) \<longrightarrow>
      rest_fields tail l d c \<and>
      (strip (join_commas segs) = [] \<longrightarrow> ch = []) \<and>
      (strip (join_commas segs) \<noteq> [] \<longrightarrow>
         length ch = length segs \<and> (\<forall>i<length segs. text_tree (segs ! i) = Inr (ch ! i)))"
    using text_tree_children[of s segs tail l ch d c] by simp
  show ?thesis by (rule conjI[OF 1 conjI[OF 2 3]])
qed

theorem aggregator_postorder_witness:
  "parse_newick_subtree ''(A,B,C)r'' (pure_aggregator tree_as_dict) (pure_call Inr) (pure_call Inr)
       (0 :: nat) = (Inr (PyDict [(''r'', [PyStr ''A'', PyStr ''B'', PyStr ''C''])]), 0) \<and>
   text_tree ''(A,B,C)r'' =
     Inr (Node ''r'' [Node ''A'' [] [] [], Node ''B'' [] [] [], Node ''C'' [] [] []] [] []) \<and>
   parse_newick_subtree ''(A,B,C)r'' (logged_aggregator (pure_aggregator tree_as_dict))
       (unlogged (pure_call Inr)) (unlogged (pure_call Inr)) (0 :: nat, [])
     = (Inr (PyDict [(''r'', [PyStr ''A'', PyStr ''B'', PyStr ''C''])]),
        (0, [(''A'', 0), (''B'', 0), (''C'', 0), (''r'', 3)])) \<and>
   strip ''(A,B,C)r'' = CHR ''('' # join_commas [''A'', ''B'', ''C''] @ CHR '')'' # ''r'' \<and>
   segment ''A'' \<and> segment ''B'' \<and> segment ''C'' \<and>
   text_tree ''A'' = Inr (Node ''A'' [] [] []) \<and>
   text_tree ''B'' = Inr (Node ''B'' [] [] []) \<and>
   text_tree ''C'' = Inr (Node ''C'' [] [] [])"
proof -
  let ?s = "''(A,B,C)r''"
  let ?segs = "[''A'', ''B'', ''C'']"
  let ?ch = "[Node ''A'' [] [] [], Node ''B'' [] [] [], Node ''C'' [] [] []]"
  note th = aggregator_postorder[of ?s "pure_aggregator tree_as_dict" "pure_call Inr"
      "pure_call Inr" "0 :: nat" "PyDict [(''r'', [PyStr ''A'', PyStr ''B'', PyStr ''C''])]" 0
      "Node ''r'' ?ch [] []" ?segs "''r''" "''r''" ?ch "[]" "[]"]
  have run: "parse_newick_subtree ?s (pure_aggregator tree_as_dict) (pure_call Inr)
       (pure_call Inr) (0 :: nat) = (Inr (PyDict [(''r'', [PyStr ''A'', PyStr ''B'', PyStr ''C''])]), 0)"
    by code_simp
  have tt: "text_tree ?s = Inr (Node ''r'' ?ch [] [])" by code_simp
  have st: "strip ?s = CHR ''('' # join_commas ?segs @ CHR '')'' # ''r''" by code_simp
  have sg: "segment ''A''" "segment ''B''" "segment ''C''"
    by (simp_all add: segment_def grouping_def)
  have ne: "strip (join_commas ?segs) \<noteq> []" by code_simp
  from mp[OF th[THEN conjunct1] run] tt
  have lg: "parse_newick_subtree ?s (logged_aggregator (pure_aggregator tree_as_dict))
       (unlogged (pure_call Inr)) (unlogged (pure_call Inr)) (0 :: nat, [])
     = (Inr (PyDict [(''r'', [PyStr ''A'', PyStr ''B'', PyStr ''C''])]),
        (0, [(''A'', 0), (''B'', 0), (''C'', 0), (''r'', 3)]))"
    by auto
  have pre: "strip ?s = CHR ''('' # join_commas ?segs @ CHR '')'' # ''r'' \<and>
     (\<forall>g\<in>set ?segs. segment g) \<and> text_tree ?s = Inr (Node ''r'' ?ch [] [])"
    using st sg tt by simp
  from mp[OF th[THEN conjunct2, THEN conjunct2] pre] ne
  have ch: "\<forall>i<length ?segs. text_tree (?segs ! i) = Inr (?ch ! i)" by blast
  have "text_tree (?segs ! 0) = Inr (?ch ! 0)" "text_tree (?segs ! 1) = Inr (?ch ! 1)"
    "text_tree (?segs ! 2) = Inr (?ch ! 2)"
    using ch[rule_format, of 0] ch[rule_format, of 1] ch[rule_format, of 2] by simp_all
  then have "text_tree ''A'' = Inr (Node ''A'' [] [] [])" "text_tree ''B'' = Inr (Node ''B'' [] [] [])"
    "text_tree ''C'' = Inr (Node ''C'' [] [] [])" by simp_all
  with run tt lg st sg show ?thesis by blast
qed

text \<open>
  \<^bold>\<open>C6.\<close> \<open>_simple_distance\<close> maps the empty string to \<open>None\<close>, which is no number. On a
  non-empty string it returns the number that \<open>float\<close> returns, and fails with the error of
  \<open>float\<close> when \<open>float\<close> rejects the string.
\<close>

theorem simple_distance_cases:
  "simple_distance float_of [] = Inr None \<and>
   (\<forall>v. simple_distance float_of [] \<noteq> Inr (Some v)) \<and>
   (dist \<noteq> [] \<longrightarrow> float_of dist = Inr v \<longrightarrow> simple_distance float_of dist = Inr (Some v)) \<and>
   (dist \<noteq> [] \<longrightarrow> float_of dist = Inl e \<longrightarrow> simple_distance float_of dist = Inl e)"
  by (simp add: simple_distance_def)

theorem simple_distance_cases_witness:
  "simple_distance (\<lambda>s. if s = ''2'' then Inr (2 :: int) else Inl FloatError) ''2'' = Inr (Some 2) \<and>
   simple_distance (\<lambda>s. if s = ''2'' then Inr (2 :: int) else Inl FloatError) ''x'' = Inl FloatError \<and>
   simple_distance (\<lambda>s. if s = ''2'' then Inr (2 :: int) else Inl FloatError) [] = Inr None"
  using simple_distance_cases[of "\<lambda>s. if s = ''2'' then Inr (2 :: int) else Inl FloatError" "''2''" 2 FloatError]
    simple_distance_cases[of "\<lambda>s. if s = ''2'' then Inr (2 :: int) else Inl FloatError" "''x''" 2 FloatError]
  by simp

text \<open>
  \<^bold>\<open>C7.\<close> With the aggregator \<open>tree_as_dict\<close> of the module's documentation and the default
  parsers, \<open>parse_newick\<close> on \<open>(A,(B,C));\<close> returns the dictionary that maps the empty label
  to the list of \<open>A\<close> and of the dictionary that maps the empty label to \<open>B\<close> and \<open>C\<close>.
\<close>

theorem tree_as_dict_example:
  "parse_newick ''(A,(B,C));'' (pure_aggregator tree_as_dict)
       (pure_call (simple_distance float_of)) (pure_call (\<lambda>s. Inr (simple_feature s))) st =
   (Inr (PyDict [([], [PyStr ''A'', PyDict [([], [PyStr ''B'', PyStr ''C''])]])]), st)"
proof -
  let ?parse = "\<lambda>x. parse_newick_subtree x (pure_aggregator tree_as_dict)
       (pure_call (simple_distance float_of)) (pure_call (\<lambda>s. Inr (simple_feature s)))"
  have a: "?parse ''A'' st = (Inr (PyStr ''A''), st)" for st
    by (rule default_leaf) code_simp
  have b: "?parse ''B'' st = (Inr (PyStr ''B''), st)" for st
    by (rule default_leaf) code_simp
  have c: "?parse ''C'' st = (Inr (PyStr ''C''), st)" for st
    by (rule default_leaf) code_simp
  have p1: "parts_of_subtree (strip ''(B,C)'') = Inr (''B,C'', [], [], [])" by code_simp
  have s1: "split_nodes ''B,C'' = Inr [''B'', ''C'']" by code_simp
  have bc: "?parse ''(B,C)'' st = (Inr (PyDict [([], [PyStr ''B'', PyStr ''C''])]), st)" for st
    by (rule default_inner[OF p1 s1]) (simp_all add: b c)
  have p2: "parts_of_subtree (strip ''(A,(B,C))'') = Inr (''A,(B,C)'', [], [], [])" by code_simp
  have s2: "split_nodes ''A,(B,C)'' = Inr [''A'', ''(B,C)'']" by code_simp
  have root: "?parse ''(A,(B,C))'' st =
      (Inr (PyDict [([], [PyStr ''A'', PyDict [([], [PyStr ''B'', PyStr ''C''])]])]), st)"
    by (rule default_inner[OF p2 s2]) (simp_all add: a bc)
  then show ?thesis by (simp add: parse_newick_def endswith_def)
qed

text \<open>
  \<^bold>\<open>C8.\<close> If the trimmed text of a node does not start with \<open>(\<close>, \<open>_parts_of_subtree\<close> yields an
  empty children block, and \<open>parse_newick_subtree\<close> is then the three final calls with the
  empty list of children passed to the aggregator.
\<close>

theorem no_parenthesis_no_children:
  assumes "\<not> startswith (strip s) CHR ''(''"
  shows "\<exists>l d c. parts_of_subtree (strip s) = Inr ([], l, d, c) \<and>
           parse_newick_subtree s agg dp fp st = build_node agg dp fp l [] d c st"
proof -
  from parts_no_children[OF assms] obtain l d c
    where p: "parts_of_subtree (strip s) = Inr ([], l, d, c)" by blast
  from parse_leaf[OF p, of agg dp fp st] p show ?thesis by auto
qed

theorem no_parenthesis_no_children_witness:
  "\<not> startswith (strip ''A:1[x]'') CHR ''('' \<and>
   parts_of_subtree (strip ''A:1[x]'') = Inr ([], ''A'', ''1'', ''x'') \<and>
   parse_newick_subtree ''A:1[x]'' (pure_aggregator tree_as_dict)
       (pure_call (\<lambda>s. Inr s)) (pure_call (\<lambda>s. Inr (simple_feature s))) (0 :: nat) =
   build_node (pure_aggregator tree_as_dict)
       (pure_call (\<lambda>s. Inr s)) (pure_call (\<lambda>s. Inr (simple_feature s))) ''A'' [] ''1'' ''x'' (0 :: nat)"
proof -
  have a: "\<not> startswith (strip ''A:1[x]'') CHR ''(''" by code_simp
  have b: "parts_of_subtree (strip ''A:1[x]'') = Inr ([], ''A'', ''1'', ''x'')" by code_simp
  from no_parenthesis_no_children[OF a, of "pure_aggregator tree_as_dict"
      "pure_call (\<lambda>s. Inr s)" "pure_call (\<lambda>s. Inr (simple_feature s))" "0 :: nat"] a b
  show ?thesis by simp
qed



text \<open>
  \<^bold>\<open>C10.\<close> Every argument of the four recursive functions lies in the accessible part of the
  function's call relation: each of them returns, with a value or an error, on every
  string and for all callbacks (the callbacks being total functions). Both recursive calls
  of \<open>_find_closing\<close> are on the same string at a position beyond \<open>start\<close>, and every recursive
  call of \<open>_split_nodes\<close> and of \<open>parse_newick_subtree\<close> is on a strictly shorter string.
\<close>

theorem parsing_terminates:
  "find_closing_dom (s, start, pair) \<and> scan_node_end_dom (s, p) \<and> split_nodes_dom s \<and>
   parse_newick_subtree_dom (s, agg, dp, fp, st) \<and>
   (str_index s (fst pair) start = Inr no \<longrightarrow>
      start < no + 1 \<and> no + 1 \<le> length s \<and>
      (find_closing s (no + 1) pair = Inr skip \<longrightarrow> start < skip + 1 \<and> skip + 1 \<le> length s)) \<and>
   (split_nodes_rel t' t \<longrightarrow> length t' < length t) \<and>
   (parse_newick_subtree_rel (n', agg', dp', fp', st') (n, agg, dp, fp, st) \<longrightarrow> length n' < length n)"
  using find_closing_total[rule_format, of "(s, start, pair)"]
    scan_node_end_total[rule_format, of "(s, p)"] split_nodes_total[rule_format, of s]
    parse_newick_subtree_total[rule_format, of "(s, agg, dp, fp, st)"]
    find_closing_calls_advance[of s pair start no skip]
    split_nodes_rel_shorter[of t' t]
    parse_newick_subtree_rel_shorter[of n' agg' dp' fp' st' n agg dp fp st]
  by simp

theorem parsing_terminates_witness:
  "str_index ''(())'' (fst paren) 1 = Inr 1 \<and>
   find_closing ''(())'' (1 + 1) paren = Inr 2 \<and>
   (1 :: nat) < 2 + 1 \<and>
   split_nodes_rel ''b'' '',b'' \<and> length ''b'' < length '',b'' \<and>
   parse_newick_subtree_rel
     (''A'', pure_aggregator tree_as_dict, pure_call Inr, pure_call Inr, 0 :: nat)
     (''(A)'', pure_aggregator tree_as_dict, pure_call Inr, pure_call Inr, 0 :: nat) \<and>
   length ''A'' < length ''(A)'' \<and>
   find_closing_dom (''(())'', 1, paren)"
proof -
  have a: "str_index ''(())'' (fst paren) 1 = Inr 1" by code_simp
  have b: "find_closing ''(())'' (1 + 1) paren = Inr 2" by code_simp
  have s1: "'',b'' = strip '',b''" by code_simp
  have s2: "startswith '',b'' CHR '',''" by code_simp
  have "split_nodes_rel (drop 1 '',b'') '',b''"
    by (rule split_nodes_rel.intros(1)[OF s1 _ _ s2]) simp_all
  then have c: "split_nodes_rel ''b'' '',b''" by simp
  have p: "parts_of_subtree (strip ''(A)'') = Inr (''A'', [], [], [])" by code_simp
  have sp: "split_nodes ''A'' = Inr [''A'']" by code_simp
  have d: "parse_newick_subtree_rel
     (''A'', pure_aggregator tree_as_dict, pure_call Inr, pure_call Inr, 0 :: nat)
     (''(A)'', pure_aggregator tree_as_dict, pure_call Inr, pure_call Inr, 0 :: nat)"
    by (rule parse_newick_subtree_rel.intros[OF p refl refl refl sp]) simp
  from parsing_terminates[of "''(())''" 1 paren 0 "pure_aggregator tree_as_dict"
      "pure_call Inr" "pure_call Inr" "0 :: nat" 1 2 "''b''" "'',b''"
      "''A''" "pure_aggregator tree_as_dict" "pure_call Inr" "pure_call Inr" "0 :: nat" "''(A)''"]
    a b c d
  show ?thesis by simp
qed

end
